theory Spec2Isabelle
  imports Complex_Main
begin

section \<open>JavaScript values used by the plugin\<close>

text \<open>
  A JavaScript number is a double: a real number (every finite double is one) or one of
  the three non-finite values; negative zero is identified with zero. Comparison,
  \<open>Math.max\<close> and \<open>Math.floor\<close> are exact on doubles. The one operation of the plugin that
  rounds, a division, takes the rounding of the platform as a parameter.
\<close>

datatype jsnum = NaN | NegInf | PosInf | Num real

text \<open>Truthiness of a number: \<open>NaN\<close> and zero are falsy (\<open>Number(v) || 5000\<close>).\<close>

fun num_truthy :: "jsnum \<Rightarrow> bool" where
  "num_truthy NaN = False"
| "num_truthy (Num r) = (r \<noteq> 0)"
| "num_truthy _ = True"

text \<open>
  A value that is a string or absent (\<open>undefined\<close>, \<open>null\<close>, a hole of an array) is a
  \<open>string option\<close>. It is truthy when it is a non-empty string.
\<close>

fun truthy :: "string option \<Rightarrow> bool" where
  "truthy None = False"
| "truthy (Some s) = (s \<noteq> [])"

text \<open>\<open>size > limit\<close> for the size of a \<open>Map\<close> and a number.\<close>

fun size_gt :: "nat \<Rightarrow> jsnum \<Rightarrow> bool" where
  "size_gt n NaN = False"
| "size_gt n NegInf = True"
| "size_gt n PosInf = False"
| "size_gt n (Num r) = (real n > r)"

section \<open>The insertion-ordered \<open>Map\<close>\<close>

text \<open>
  A JavaScript \<open>Map\<close> iterates in insertion order: it is the list of its entries, oldest
  insertion first. \<open>set\<close> on a key already present replaces the value where the key
  stands; on a new key it appends.
\<close>

type_synonym jsmap = "(string \<times> string) list"

definition jsmap_has :: "jsmap \<Rightarrow> string \<Rightarrow> bool" where
  "jsmap_has m k = (k \<in> fst ` set m)"

definition jsmap_get :: "jsmap \<Rightarrow> string \<Rightarrow> string option" where
  "jsmap_get m k = map_of m k"

definition jsmap_delete :: "jsmap \<Rightarrow> string \<Rightarrow> jsmap" where
  "jsmap_delete m k = filter (\<lambda>e. fst e \<noteq> k) m"

definition jsmap_set :: "jsmap \<Rightarrow> string \<Rightarrow> string \<Rightarrow> jsmap" where
  "jsmap_set m k v =
     (if jsmap_has m k then map (\<lambda>e. if fst e = k then (k, v) else e) m
      else m @ [(k, v)])"

section \<open>The memory cache: class \<open>LRU\<close>\<close>

record lru =
  limit :: jsnum
  lmap :: jsmap

text \<open>\<open>constructor(limit = 5000)\<close>: the default applies when no argument is given.\<close>

definition LRU_new :: "jsnum option \<Rightarrow> lru" where
  "LRU_new a = \<lparr>limit = (case a of None \<Rightarrow> Num 5000 | Some n \<Rightarrow> n), lmap = []\<rparr>"

text \<open>
  \<open>get(k)\<close>: when the key is present, its entry is deleted and inserted again (so it
  becomes the newest), and the value is returned; otherwise \<open>undefined\<close>.
\<close>

definition LRU_get :: "lru \<Rightarrow> string \<Rightarrow> string option \<times> lru" where
  "LRU_get c k =
     (if jsmap_has (lmap c) k then
        (case jsmap_get (lmap c) k of
           Some v \<Rightarrow> (Some v, c\<lparr>lmap := jsmap_set (jsmap_delete (lmap c) k) k v\<rparr>)
         | None \<Rightarrow> (None, c))
      else (None, c))"

text \<open>
  \<open>set(k, v)\<close>: delete the key when present, insert it, and when the size now exceeds the
  limit delete the first key of the iteration order.
\<close>

definition LRU_set :: "lru \<Rightarrow> string \<Rightarrow> string \<Rightarrow> lru" where
  "LRU_set c k v =
     (let m1 = (if jsmap_has (lmap c) k then jsmap_delete (lmap c) k else lmap c);
          m2 = jsmap_set m1 k v
      in if size_gt (length m2) (limit c)
         then (case m2 of [] \<Rightarrow> c\<lparr>lmap := m2\<rparr>
               | f # _ \<Rightarrow> c\<lparr>lmap := jsmap_delete m2 (fst f)\<rparr>)
         else c\<lparr>lmap := m2\<rparr>)"

definition LRU_has :: "lru \<Rightarrow> string \<Rightarrow> bool" where
  "LRU_has c k = jsmap_has (lmap c) k"

text \<open>The keys of the cache, least recently used first.\<close>

definition lru_keys :: "lru \<Rightarrow> string list" where
  "lru_keys c = map fst (lmap c)"

text \<open>A sequence of \<open>set\<close> calls, each key with its value.\<close>

fun LRU_sets :: "lru \<Rightarrow> (string \<times> string) list \<Rightarrow> lru" where
  "LRU_sets c [] = c"
| "LRU_sets c (e # es) = LRU_sets (LRU_set c (fst e) (snd e)) es"

section \<open>The capacity setting\<close>

text \<open>
  The handler of the "Memory cache size" field:
  \<open>const n = Number(v)||5000; settings.cacheLimit = n; plugin.lru = new LRU(n)\<close>.
  The argument is \<open>Number(v)\<close>, the conversion of the text the user typed.
\<close>

definition onCacheLimitChange :: "jsnum \<Rightarrow> jsnum \<times> lru" where
  "onCacheLimitChange numv =
     (let n = (if num_truthy numv then numv else Num 5000) in (n, LRU_new (Some n)))"

text \<open>
  The handlers of the two sibling fields, "Requests per second" and "Batch size":
  \<open>Math.max(1, Number(v)||4)\<close> and \<open>Math.max(1, Number(v)||20)\<close>.
\<close>

fun js_max :: "jsnum \<Rightarrow> jsnum \<Rightarrow> jsnum" where
  "js_max NaN _ = NaN"
| "js_max _ NaN = NaN"
| "js_max PosInf _ = PosInf"
| "js_max _ PosInf = PosInf"
| "js_max NegInf b = b"
| "js_max a NegInf = a"
| "js_max (Num a) (Num b) = Num (max a b)"

definition onRpsChange :: "jsnum \<Rightarrow> jsnum" where
  "onRpsChange numv = js_max (Num 1) (if num_truthy numv then numv else Num 4)"

definition onBatchSizeChange :: "jsnum \<Rightarrow> jsnum" where
  "onBatchSizeChange numv = js_max (Num 1) (if num_truthy numv then numv else Num 20)"

section \<open>Fingerprints\<close>

text \<open>
  \<open>[providerName, src, tgt, t].join('|')\<close>: the fields joined with a bar between
  neighbours. The hash \<open>sha1\<close> is the platform's; it is a parameter of the model.
\<close>

fun join_bar :: "string list \<Rightarrow> string" where
  "join_bar [] = []"
| "join_bar [x] = x"
| "join_bar (x # y # ys) = x @ CHR ''|'' # join_bar (y # ys)"

definition prehash :: "string \<Rightarrow> string \<Rightarrow> string \<Rightarrow> string \<Rightarrow> string" where
  "prehash p s t x = join_bar [p, s, t, x]"

definition fingerprint :: "(string \<Rightarrow> string) \<Rightarrow> string \<Rightarrow> string \<Rightarrow> string \<Rightarrow> string \<Rightarrow> string" where
  "fingerprint sha1 p s t x = sha1 (prehash p s t x)"

definition no_bar :: "string \<Rightarrow> bool" where
  "no_bar s = (CHR ''|'' \<notin> set s)"

section \<open>The persistent cache: class \<open>DiskCache\<close>\<close>

datatype error = Error string

record diskcache =
  dmap :: "string \<rightharpoonup> string"
  dirty :: bool
  path :: string

text \<open>\<open>get(k)\<close> reads the in-memory object.\<close>

definition DiskCache_get :: "diskcache \<Rightarrow> string \<Rightarrow> string option" where
  "DiskCache_get d k = dmap d k"

text \<open>
  \<open>set(k, v)\<close> stores the value and marks the cache dirty. The timer it then arms
  (\<open>scheduleSave\<close>, a call of \<open>flush\<close> one second later) is not part of the state.
\<close>

definition DiskCache_set :: "diskcache \<Rightarrow> string \<Rightarrow> string \<Rightarrow> diskcache" where
  "DiskCache_set d k v = d\<lparr>dmap := (dmap d)(k \<mapsto> v), dirty := True\<rparr>"

text \<open>
  \<open>flush()\<close>:
  \<open>if (!this.dirty) return; this.dirty = false;
    try { await adapter.write(this.path, JSON.stringify(this.map)); }
    catch (e) { console.error('cache write fail', e); }\<close>.
  The storage adapter's \<open>write\<close> and \<open>JSON.stringify\<close> are parameters; a write either
  fails with an error and leaves the storage as it was, or returns the new storage. The
  result is the cache, the storage, and what was logged.
\<close>

definition flush ::
  "(string \<Rightarrow> string \<Rightarrow> 'fs \<Rightarrow> error + 'fs) \<Rightarrow> ((string \<rightharpoonup> string) \<Rightarrow> string) \<Rightarrow>
     diskcache \<Rightarrow> 'fs \<Rightarrow> diskcache \<times> 'fs \<times> error list" where
  "flush write stringify d fs =
     (if \<not> dirty d then (d, fs, [])
      else
        (let d1 = d\<lparr>dirty := False\<rparr> in
         case write (path d1) (stringify (dmap d1)) fs of
           Inr fs' \<Rightarrow> (d1, fs', [])
         | Inl e \<Rightarrow> (d1, fs, [e])))"

text \<open>A storage for examples: a map from paths to contents, and two adapters.\<close>

definition write_ok :: "string \<Rightarrow> string \<Rightarrow> (string \<rightharpoonup> string) \<Rightarrow> error + (string \<rightharpoonup> string)" where
  "write_ok p s fs = Inr (fs(p \<mapsto> s))"

definition write_fail :: "string \<Rightarrow> string \<Rightarrow> (string \<rightharpoonup> string) \<Rightarrow> error + (string \<rightharpoonup> string)" where
  "write_fail p s fs = Inl (Error ''EIO'')"

section \<open>The plugin and \<open>translateMany\<close>\<close>

text \<open>
  The fields of the plugin instance that \<open>translateMany\<close> reads and writes. A provider
  takes the texts and the two languages and fails as a whole or returns a list of
  results, any of which may be absent. \<open>setProvider\<close> leaves \<open>this.provider\<close> undefined
  for a name it does not know: the provider is optional.
\<close>

type_synonym provider = "string list \<Rightarrow> string \<Rightarrow> string \<Rightarrow> error + string option list"

record plugin =
  lru :: lru
  diskCache :: diskcache
  providerName :: string
  sourceLang :: string
  targetLang :: string
  offlineOnly :: bool

text \<open>One call of \<open>provider.translateMany\<close> as it appears in the trace of a run.\<close>

datatype pcall = ProviderCall "string list" string string

text \<open>\<open>a[j]\<close> on an array: \<open>undefined\<close> beyond the end.\<close>

fun js_nth :: "'a option list \<Rightarrow> nat \<Rightarrow> 'a option" where
  "js_nth [] j = None"
| "js_nth (x # xs) 0 = x"
| "js_nth (x # xs) (Suc j) = js_nth xs j"

text \<open>The value of \<open>this.lru.get(k) || this.diskCache.get(k)\<close>.\<close>

definition lookup :: "lru \<Rightarrow> diskcache \<Rightarrow> string \<Rightarrow> string option" where
  "lookup c d k = (case LRU_get c k of (r, c1) \<Rightarrow> if truthy r then r else DiskCache_get d k)"

text \<open>
  The loop over the keys (lines 212 to 218). For the keys still to be visited, starting
  at index \<open>i\<close>, it returns the output slots, the miss indices and the memory cache.
  A slot left unassigned is \<open>None\<close>; the test \<open>if (cached)\<close> keeps a value only when it
  is truthy.
  \<open>const cached = this.lru.get(k) || this.diskCache.get(k);
    if (cached) { out[i] = cached; this.lru.set(k, cached); } else missIdx.push(i);\<close>
\<close>

fun lookup_loop :: "lru \<Rightarrow> diskcache \<Rightarrow> nat \<Rightarrow> string list \<Rightarrow> string option list \<times> nat list \<times> lru" where
  "lookup_loop c d i [] = ([], [], c)"
| "lookup_loop c d i (k # ks) =
     (case LRU_get c k of (r, c1) \<Rightarrow>
        (let cached = (if truthy r then r else DiskCache_get d k) in
         case (if truthy cached then cached else None) of
           Some v \<Rightarrow>
             (case lookup_loop (LRU_set c1 k v) d (Suc i) ks of
                (out, miss, c2) \<Rightarrow> (Some v # out, miss, c2))
         | None \<Rightarrow>
             (case lookup_loop c1 d (Suc i) ks of
                (out, miss, c2) \<Rightarrow> (None # out, i # miss, c2))))"

text \<open>
  The memory cache as the lookup loop leaves it after the keys \<open>ks\<close>, and what the lookup
  of the \<open>n\<close>-th key finds: the value of \<open>this.lru.get(k) || this.diskCache.get(k)\<close> in
  the memory cache as the keys before it have left it.
\<close>

definition cache_after :: "lru \<Rightarrow> diskcache \<Rightarrow> string list \<Rightarrow> lru" where
  "cache_after c d ks = snd (snd (lookup_loop c d 0 ks))"

definition found_at :: "lru \<Rightarrow> diskcache \<Rightarrow> string list \<Rightarrow> nat \<Rightarrow> string option" where
  "found_at c d ks n = lookup (cache_after c d (take n ks)) d (ks ! n)"

text \<open>
  \<open>missIdx.forEach((idx, j) => out[idx] = missTexts[j])\<close>, over the pairs of a miss index
  and its text.
\<close>

fun fill_originals :: "string option list \<Rightarrow> (nat \<times> string) list \<Rightarrow> string option list" where
  "fill_originals out [] = out"
| "fill_originals out ((idx, src) # ps) = fill_originals (out[idx := Some src]) ps"

text \<open>\<open>a ?? b\<close>: the left operand unless it is \<open>null\<close> or \<open>undefined\<close>.\<close>

fun js_coalesce :: "'a option \<Rightarrow> 'a \<Rightarrow> 'a" where
  "js_coalesce (Some v) b = v"
| "js_coalesce None b = b"

text \<open>
  The last loop (line 237), from position \<open>j\<close> of the miss list on:
  \<open>const dst = translated[j] ?? missTexts[j]; out[idx] = dst; const k = keys[idx];
    this.lru.set(k, dst); this.diskCache.set(k, dst);\<close>
\<close>

fun store_loop ::
  "string option list \<Rightarrow> string list \<Rightarrow> nat \<Rightarrow> (nat \<times> string) list \<Rightarrow>
     string option list \<times> lru \<times> diskcache \<Rightarrow> string option list \<times> lru \<times> diskcache" where
  "store_loop translated keys j [] st = st"
| "store_loop translated keys j ((idx, src) # ps) (out, c, d) =
     (let dst = js_coalesce (js_nth translated j) src;
          k = keys ! idx
      in store_loop translated keys (Suc j) ps
           (out[idx := Some dst], LRU_set c k dst, DiskCache_set d k dst))"

text \<open>
  The writes of that loop, one for each miss from position \<open>j\<close> on: the index of the
  output slot, the key and the value stored.
\<close>

fun store_writes ::
  "string option list \<Rightarrow> string list \<Rightarrow> nat \<Rightarrow> (nat \<times> string) list \<Rightarrow>
     (nat \<times> string \<times> string) list" where
  "store_writes translated keys j [] = []"
| "store_writes translated keys j ((idx, src) # ps) =
     (idx, keys ! idx, js_coalesce (js_nth translated j) src)
       # store_writes translated keys (Suc j) ps"

text \<open>
  The first lines of \<open>translateMany\<close>:
  \<open>const src = this.settings.sourceLang || 'auto';
    const tgt = this.settings.targetLang || 'ko';
    const keys = texts.map(t => sha1([this.providerName, src, tgt, t].join('|')));\<close>
\<close>

definition src_of :: "plugin \<Rightarrow> string" where
  "src_of P = (if sourceLang P = [] then ''auto'' else sourceLang P)"

definition tgt_of :: "plugin \<Rightarrow> string" where
  "tgt_of P = (if targetLang P = [] then ''ko'' else targetLang P)"

definition keys_of :: "(string \<Rightarrow> string) \<Rightarrow> plugin \<Rightarrow> string list \<Rightarrow> string list" where
  "keys_of sha1 P texts =
     map (\<lambda>t. fingerprint sha1 (providerName P) (src_of P) (tgt_of P) t) texts"

text \<open>
  \<open>translateMany(texts)\<close>. The result is the output array, the plugin afterwards and
  the calls made to the provider. A provider that is undefined makes the call throw
  inside the \<open>try\<close> block, as a provider that fails does.
\<close>

definition translateMany ::
  "(string \<Rightarrow> string) \<Rightarrow> provider option \<Rightarrow> plugin \<Rightarrow> string list \<Rightarrow>
     string option list \<times> plugin \<times> pcall list" where
  "translateMany sha1 prov P texts =
     (let src = src_of P; tgt = tgt_of P; keys = keys_of sha1 P texts
      in case lookup_loop (lru P) (diskCache P) 0 keys of (out, missIdx, c1) \<Rightarrow>
        (let P1 = P\<lparr>lru := c1\<rparr> in
         if missIdx = [] then (out, P1, [])
         else
           (let missTexts = map (\<lambda>i. texts ! i) missIdx in
            if offlineOnly P then (fill_originals out (zip missIdx missTexts), P1, [])
            else
              (case prov of
                 None \<Rightarrow> (fill_originals out (zip missIdx missTexts), P1, [])
               | Some f \<Rightarrow>
                   (case f missTexts src tgt of
                      Inl e \<Rightarrow>
                        (fill_originals out (zip missIdx missTexts), P1,
                         [ProviderCall missTexts src tgt])
                    | Inr translated \<Rightarrow>
                        (case store_loop translated keys 0 (zip missIdx missTexts)
                                (out, c1, diskCache P) of
                           (out', c2, d2) \<Rightarrow>
                             (out', P1\<lparr>lru := c2, diskCache := d2\<rparr>,
                              [ProviderCall missTexts src tgt])))))))"

text \<open>A plugin for examples: empty caches of a given capacity, the default settings.\<close>

definition plugin0 :: "jsnum \<Rightarrow> plugin" where
  "plugin0 n =
     \<lparr>lru = LRU_new (Some n),
      diskCache = \<lparr>dmap = Map.empty, dirty = False, path = ''cache/translations-ko.json''\<rparr>,
      providerName = ''azure'', sourceLang = ''auto'', targetLang = ''ko'',
      offlineOnly = False\<rparr>"

section \<open>The dispatcher: class \<open>TranslateQueue\<close>\<close>

text \<open>
  A task \<open>{ text, resolve, reject }\<close>: its text and the identity of the promise that its
  two callbacks settle.
\<close>

record task =
  task_text :: string
  tid :: nat

record dispatcher =
  queue :: "task list"
  running :: bool

text \<open>
  What a run does that can be observed: it calls \<open>plugin.translateMany\<close> with the texts
  of a batch, resolves or rejects a promise, logs an error, or sleeps for a number of
  milliseconds.
\<close>

datatype event =
  Called "string list"
| Resolved nat "string option"
| Rejected nat error
| ConsoleError error
| Slept jsnum

text \<open>
  The quotient of two numbers is rounded to the nearest double. That rounding division
  of finite numbers is the platform's and is a parameter, \<open>fdiv\<close>. The only division of
  the plugin is \<open>1000 / Math.max(1, rps)\<close>: its divisor is \<open>NaN\<close>, plus infinity or a
  number that is at least one, so that the quotient is \<open>NaN\<close>, zero or a finite number; the
  other two cases are given for completeness.
\<close>

fun js_div1000 :: "(real \<Rightarrow> real \<Rightarrow> real) \<Rightarrow> jsnum \<Rightarrow> jsnum" where
  "js_div1000 fdiv NaN = NaN"
| "js_div1000 fdiv PosInf = Num 0"
| "js_div1000 fdiv NegInf = Num 0"
| "js_div1000 fdiv (Num m) = (if m = 0 then PosInf else Num (fdiv 1000 m))"

text \<open>
  The division of the examples: the exact quotient, which is what the rounding division
  returns whenever the exact quotient is itself a double, as \<open>1000 / 1\<close>, \<open>1000 / 4\<close> and
  \<open>1000 / 0.5\<close> are.
\<close>

definition exact_div :: "real \<Rightarrow> real \<Rightarrow> real" where
  "exact_div a b = a / b"

fun js_floor :: "jsnum \<Rightarrow> jsnum" where
  "js_floor (Num r) = Num (of_int \<lfloor>r\<rfloor>)"
| "js_floor x = x"

text \<open>\<open>Math.max(250, Math.floor(1000 / Math.max(1, rps)))\<close>\<close>

definition interval :: "(real \<Rightarrow> real \<Rightarrow> real) \<Rightarrow> jsnum \<Rightarrow> jsnum" where
  "interval fdiv rps = js_max (Num 250) (js_floor (js_div1000 fdiv (js_max (Num 1) rps)))"

text \<open>
  The number of elements \<open>splice(0, batchSize)\<close> removes from an array of length \<open>len\<close>:
  the count converted to an integer (truncated, \<open>NaN\<close> as zero) and clamped to the
  range from zero to \<open>len\<close>.
\<close>

fun splice_count :: "jsnum \<Rightarrow> nat \<Rightarrow> nat" where
  "splice_count NaN len = 0"
| "splice_count NegInf len = 0"
| "splice_count PosInf len = len"
| "splice_count (Num r) len = min len (nat \<lfloor>r\<rfloor>)"

text \<open>
  \<open>translated.forEach((dst, i) => tasks[i].resolve(dst))\<close>. When there are more results
  than tasks, \<open>tasks[i]\<close> is undefined and the call throws a \<open>TypeError\<close>: the flag.
\<close>

fun resolve_each :: "string option list \<Rightarrow> task list \<Rightarrow> event list \<times> bool" where
  "resolve_each [] ts = ([], False)"
| "resolve_each (d # ds) [] = ([], True)"
| "resolve_each (d # ds) (t # ts) =
     (case resolve_each ds ts of (evs, thrown) \<Rightarrow> (Resolved (tid t) d # evs, thrown))"

text \<open>The \<open>catch\<close> block: \<open>console.error(..., e); tasks.forEach(t => t.reject(e))\<close>.\<close>

definition reject_all :: "error \<Rightarrow> task list \<Rightarrow> event list" where
  "reject_all e tasks = ConsoleError e # map (\<lambda>t. Rejected (tid t) e) tasks"

text \<open>The \<open>try\<close> statement of one iteration, given the outcome of the awaited call.\<close>

definition settle_batch :: "error + string option list \<Rightarrow> task list \<Rightarrow> event list" where
  "settle_batch res tasks =
     (case res of
        Inr translated \<Rightarrow>
          (case resolve_each translated tasks of
             (evs, thrown) \<Rightarrow>
               evs @ (if thrown then reject_all (Error ''TypeError'') tasks else []))
      | Inl e \<Rightarrow> reject_all e tasks)"

text \<open>
  The \<open>while\<close> loop of \<open>run\<close>. The queue's constructor receives the plugin, and the loop
  calls \<open>plugin.translateMany(texts)\<close>: the callee is a parameter, a function of the
  plugin's state that fails or returns the results. While an iteration is suspended (at
  the call and at the sleep) other code may \<open>enqueue\<close>: \<open>arr i\<close> are the tasks pushed
  during iteration \<open>i\<close>. The loop may run forever (a batch size of zero removes nothing):
  it is given fuel, one unit for each iteration, and \<open>None\<close> is running out of it. The
  result is the state, the queue at the exit and the events.
\<close>

fun run_loop ::
  "('s \<Rightarrow> string list \<Rightarrow> (error + string option list) \<times> 's) \<Rightarrow> jsnum \<Rightarrow> jsnum \<Rightarrow>
     (nat \<Rightarrow> task list) \<Rightarrow> nat \<Rightarrow> nat \<Rightarrow> 's \<Rightarrow> task list \<Rightarrow>
     ('s \<times> task list \<times> event list) option" where
  "run_loop call iv bs arr 0 i st q = (if q = [] then Some (st, q, []) else None)"
| "run_loop call iv bs arr (Suc n) i st q =
     (if q = [] then Some (st, q, [])
      else
        (let c = splice_count bs (length q);
             tasks = take c q;
             texts = map task_text tasks
         in case call st texts of (res, st') \<Rightarrow>
              (case run_loop call iv bs arr n (Suc i) st' (drop c q @ arr i) of
                 None \<Rightarrow> None
               | Some (st'', q', evs) \<Rightarrow>
                   Some (st'', q', Called texts # settle_batch res tasks @ Slept iv # evs))))"

text \<open>
  \<open>run()\<close>: \<open>if (this.running) return; this.running = true; ... this.running = false\<close>,
  with the rate limit \<open>{ rps, batchSize }\<close> read from the settings and the interval
  computed once, before the loop.
\<close>

definition run ::
  "('s \<Rightarrow> string list \<Rightarrow> (error + string option list) \<times> 's) \<Rightarrow> (real \<Rightarrow> real \<Rightarrow> real) \<Rightarrow>
     jsnum \<Rightarrow> jsnum \<Rightarrow> (nat \<Rightarrow> task list) \<Rightarrow> nat \<Rightarrow> dispatcher \<Rightarrow> 's \<Rightarrow>
     (dispatcher \<times> 's \<times> event list) option" where
  "run call fdiv rps batchSize arr fuel D st =
     (if running D then Some (D, st, [])
      else
        (let D1 = D\<lparr>running := True\<rparr> in
         case run_loop call (interval fdiv rps) batchSize arr fuel 0 st (queue D1) of
           None \<Rightarrow> None
         | Some (st', q', evs) \<Rightarrow> Some (D1\<lparr>queue := q', running := False\<rparr>, st', evs)))"

text \<open>\<open>enqueue(task)\<close>: \<open>this.queue.push(task); this.run()\<close>.\<close>

definition enqueue ::
  "('s \<Rightarrow> string list \<Rightarrow> (error + string option list) \<times> 's) \<Rightarrow> (real \<Rightarrow> real \<Rightarrow> real) \<Rightarrow>
     jsnum \<Rightarrow> jsnum \<Rightarrow> (nat \<Rightarrow> task list) \<Rightarrow> nat \<Rightarrow> task \<Rightarrow> dispatcher \<Rightarrow> 's \<Rightarrow>
     (dispatcher \<times> 's \<times> event list) option" where
  "enqueue call fdiv rps batchSize arr fuel t D st =
     run call fdiv rps batchSize arr fuel (D\<lparr>queue := queue D @ [t]\<rparr>) st"

text \<open>
  The callee of the plugin's own queue: \<open>translateMany\<close> never throws, so the call
  succeeds with the output array. The state is the plugin and the provider calls so far.
\<close>

definition plugin_call ::
  "(string \<Rightarrow> string) \<Rightarrow> provider option \<Rightarrow> plugin \<times> pcall list \<Rightarrow> string list \<Rightarrow>
     (error + string option list) \<times> (plugin \<times> pcall list)" where
  "plugin_call sha1 prov st texts =
     (case translateMany sha1 prov (fst st) texts of
        (out, P', calls) \<Rightarrow> (Inr out, (P', snd st @ calls)))"

text \<open>
  The calls and the sleeps of a trace, in order: \<open>True\<close> for a call, \<open>False\<close> for a sleep.
\<close>

fun pace :: "event list \<Rightarrow> bool list" where
  "pace [] = []"
| "pace (Called ts # evs) = True # pace evs"
| "pace (Slept ms # evs) = False # pace evs"
| "pace (_ # evs) = pace evs"

text \<open>
  The first settlement of a promise in a trace: a promise settles once, later calls of
  its callbacks have no effect.
\<close>

fun settlement :: "nat \<Rightarrow> event list \<Rightarrow> event option" where
  "settlement t [] = None"
| "settlement t (Resolved u v # evs) = (if u = t then Some (Resolved u v) else settlement t evs)"
| "settlement t (Rejected u e # evs) = (if u = t then Some (Rejected u e) else settlement t evs)"
| "settlement t (_ # evs) = settlement t evs"

section \<open>Persistent cache: what \<open>flush\<close> does to the dirty flag\<close>

text \<open>
  C2, as stated, wants the dirty flag to stay set when the write fails. The code clears
  the flag before it writes and its \<open>catch\<close> block only logs: on a dirty cache whose
  write fails, the flag is cleared afterwards, the storage is untouched and the error is
  logged.
\<close>

theorem flush_dirty_cleared_on_failure:
  "dirty \<lparr>dmap = Map.empty, dirty = True, path = ''p''\<rparr> \<and>
   flush write_fail (\<lambda>m. ''{}'') \<lparr>dmap = Map.empty, dirty = True, path = ''p''\<rparr> Map.empty
     = (\<lparr>dmap = Map.empty, dirty = False, path = ''p''\<rparr>, Map.empty, [Error ''EIO''])"
  by (simp add: flush_def write_fail_def)

text \<open>
  C2, amended: \<open>flush\<close> changes nothing when the cache is not dirty. When it is dirty,
  the flag is cleared whether the write succeeds or fails, the mapping and the path are
  kept, a successful write yields the new storage and logs nothing, and a failed write
  leaves the storage as it was and logs the error.
\<close>

theorem flush_effect:
  "(\<not> dirty d \<longrightarrow> flush w js d fs = (d, fs, [])) \<and>
   (dirty d \<longrightarrow>
      \<not> dirty (fst (flush w js d fs)) \<and>
      dmap (fst (flush w js d fs)) = dmap d \<and>
      path (fst (flush w js d fs)) = path d \<and>
      (case w (path d) (js (dmap d)) fs of
         Inr fs' \<Rightarrow> snd (flush w js d fs) = (fs', [])
       | Inl e \<Rightarrow> snd (flush w js d fs) = (fs, [e])))"
  by (simp add: flush_def Let_def split: sum.split)

theorem flush_effect_witness:
  "dirty \<lparr>dmap = Map.empty, dirty = True, path = ''p''\<rparr> \<and>
   \<not> dirty (fst (flush write_fail (\<lambda>m. ''{}'')
      \<lparr>dmap = Map.empty, dirty = True, path = ''p''\<rparr> Map.empty)) \<and>
   snd (flush write_fail (\<lambda>m. ''{}'') \<lparr>dmap = Map.empty, dirty = True, path = ''p''\<rparr>
      (Map.empty :: string \<rightharpoonup> string)) = (Map.empty, [Error ''EIO'']) \<and>
   snd (flush write_ok (\<lambda>m. ''{}'') \<lparr>dmap = Map.empty, dirty = True, path = ''p''\<rparr>
      Map.empty) = ([''p'' \<mapsto> ''{}''], []) \<and>
   flush write_ok (\<lambda>m. ''{}'') \<lparr>dmap = Map.empty, dirty = False, path = ''p''\<rparr> Map.empty
     = (\<lparr>dmap = Map.empty, dirty = False, path = ''p''\<rparr>, Map.empty, [])"
  using flush_effect [of "\<lparr>dmap = Map.empty, dirty = True, path = ''p''\<rparr>" write_fail
      "\<lambda>m. ''{}''" Map.empty]
    flush_effect [of "\<lparr>dmap = Map.empty, dirty = True, path = ''p''\<rparr>" write_ok
      "\<lambda>m. ''{}''" Map.empty]
    flush_effect [of "\<lparr>dmap = Map.empty, dirty = False, path = ''p''\<rparr>" write_ok
      "\<lambda>m. ''{}''" Map.empty]
  by (simp add: write_fail_def write_ok_def)

section \<open>The capacity setting: negative numbers\<close>

text \<open>
  C3 says that a capacity input that is not numeric or not positive is replaced by a
  positive default. The handler replaces only falsy numbers (\<open>NaN\<close> and zero): for the
  input \<open>-5\<close> the capacity is \<open>-5\<close>, and a memory cache with that limit is empty after
  every \<open>set\<close>. The two sibling handlers clamp the same input to one.
\<close>

theorem cacheLimit_negative_kept:
  "onCacheLimitChange (Num (-5)) = (Num (-5), \<lparr>limit = Num (-5), lmap = []\<rparr>) \<and>
   lmap (LRU_set (snd (onCacheLimitChange (Num (-5)))) k v) = [] \<and>
   onRpsChange (Num (-5)) = Num 1 \<and> onBatchSizeChange (Num (-5)) = Num 1"
  by (simp add: onCacheLimitChange_def LRU_new_def LRU_set_def jsmap_has_def jsmap_set_def
      jsmap_delete_def onRpsChange_def onBatchSizeChange_def Let_def)

section \<open>Fingerprints: when the joined fields determine the fields\<close>

lemma bar_split:
  "no_bar a \<Longrightarrow> no_bar a' \<Longrightarrow> a @ CHR ''|'' # r = a' @ CHR ''|'' # r' \<Longrightarrow> a = a' \<and> r = r'"
proof (induction a arbitrary: a')
  case Nil
  then show ?case by (cases a') (auto simp: no_bar_def)
next
  case (Cons c a)
  then show ?case by (cases a') (auto simp: no_bar_def)
qed

text \<open>
  C5, as stated, wants two tuples that differ in a field to have distinct joined
  strings. A bar inside a field is not escaped: the target language \<open>ko\<close> with the text
  \<open>a|b\<close> and the target language \<open>ko|a\<close> with the text \<open>b\<close> are joined to the same string.
\<close>

theorem prehash_collision:
  "prehash ''azure'' ''auto'' ''ko'' ''a|b'' = prehash ''azure'' ''auto'' ''ko|a'' ''b'' \<and>
   (''azure'', ''auto'', ''ko'', ''a|b'') \<noteq> (''azure'', ''auto'', ''ko|a'', ''b'')"
  by (simp add: prehash_def)

text \<open>
  C5, amended: the fingerprint is a function of the four fields, so equal tuples have
  equal fingerprints; and when the provider name and the two languages of both tuples
  contain no bar (the text may), tuples that differ in a field have distinct joined
  strings, so that their fingerprints are equal only if the hash collides on two
  distinct strings.
\<close>

theorem fingerprint_separates:
  assumes "no_bar p" "no_bar s" "no_bar t" "no_bar p'" "no_bar s'" "no_bar t'"
  shows "((p, s, t, x) = (p', s', t', x') \<longrightarrow>
            fingerprint h p s t x = fingerprint h p' s' t' x') \<and>
         ((p, s, t, x) \<noteq> (p', s', t', x') \<longrightarrow>
            prehash p s t x \<noteq> prehash p' s' t' x' \<and>
            (fingerprint h p s t x = fingerprint h p' s' t' x' \<longrightarrow>
               h (prehash p s t x) = h (prehash p' s' t' x')))"
proof -
  have "(p, s, t, x) = (p', s', t', x')" if e: "prehash p s t x = prehash p' s' t' x'"
  proof -
    from e have 1: "p = p' \<and>
        s @ CHR ''|'' # t @ CHR ''|'' # x = s' @ CHR ''|'' # t' @ CHR ''|'' # x'"
      using bar_split [OF assms(1) assms(4)] by (simp add: prehash_def)
    then have 2: "s = s' \<and> t @ CHR ''|'' # x = t' @ CHR ''|'' # x'"
      using bar_split [OF assms(2) assms(5)] by blast
    then have "t = t' \<and> x = x'"
      using bar_split [OF assms(3) assms(6)] by blast
    with 1 2 show ?thesis by simp
  qed
  then show ?thesis by (auto simp: fingerprint_def)
qed

theorem fingerprint_separates_witness:
  "no_bar ''azure'' \<and> no_bar ''auto'' \<and> no_bar ''ko'' \<and> no_bar ''ja'' \<and>
   (''azure'', ''auto'', ''ko'', ''a|b'') \<noteq> (''azure'', ''auto'', ''ja'', ''a|b'') \<and>
   prehash ''azure'' ''auto'' ''ko'' ''a|b'' \<noteq> prehash ''azure'' ''auto'' ''ja'' ''a|b''"
  using fingerprint_separates [of "''azure''" "''auto''" "''ko''" "''azure''" "''auto''" "''ja''"
      "''a|b''" "''a|b''" id]
  by (simp add: no_bar_def)

section \<open>Memory cache: eviction\<close>

lemma jsmap_set_fresh: "\<not> jsmap_has m k \<Longrightarrow> jsmap_set m k v = m @ [(k, v)]"
  by (simp add: jsmap_set_def)

lemma jsmap_has_delete: "\<not> jsmap_has (jsmap_delete m k) k"
  by (auto simp: jsmap_has_def jsmap_delete_def)

lemma jsmap_delete_fresh: "\<not> jsmap_has m k \<Longrightarrow> jsmap_delete m k = m"
  by (induction m) (auto simp: jsmap_has_def jsmap_delete_def)

lemma jsmap_delete_hd:
  "distinct (map fst m) \<Longrightarrow> m = e # m' \<Longrightarrow> jsmap_delete m (fst e) = m'"
  by (auto simp: jsmap_delete_def filter_id_conv rev_image_eqI)

text \<open>The map after \<open>set\<close>: the entry moved to the end, and the head dropped when too long.\<close>

lemma lmap_LRU_set:
  "lmap (LRU_set c k v) =
     (let m2 = jsmap_delete (lmap c) k @ [(k, v)]
      in if size_gt (length m2) (limit c) then jsmap_delete m2 (fst (hd m2)) else m2)"
proof (cases "jsmap_has (lmap c) k")
  case True
  then show ?thesis
    by (simp add: LRU_set_def Let_def jsmap_set_fresh jsmap_has_delete split: list.split)
next
  case False
  then show ?thesis
    by (simp add: LRU_set_def Let_def jsmap_set_fresh jsmap_delete_fresh split: list.split)
qed

lemma limit_LRU_set [simp]: "limit (LRU_set c k v) = limit c"
  by (simp add: LRU_set_def Let_def split: list.split)

lemma limit_LRU_sets [simp]: "limit (LRU_sets c es) = limit c"
  by (induction es arbitrary: c) auto

lemma LRU_sets_append: "LRU_sets c (xs @ ys) = LRU_sets (LRU_sets c xs) ys"
  by (induction xs arbitrary: c) auto

lemma LRU_sets_room:
  "distinct (map fst (lmap c @ es)) \<Longrightarrow> \<not> size_gt (length (lmap c) + length es) (limit c) \<Longrightarrow>
   lmap (LRU_sets c es) = lmap c @ es"
proof (induction es arbitrary: c)
  case Nil
  then show ?case by simp
next
  case (Cons e es)
  have fresh: "\<not> jsmap_has (lmap c) (fst e)"
    using Cons.prems(1) by (auto simp: jsmap_has_def)
  have small: "\<not> size_gt (Suc (length (lmap c))) (limit c)"
    using Cons.prems(2) by (cases "limit c") auto
  have step: "lmap (LRU_set c (fst e) (snd e)) = lmap c @ [e]"
    using fresh small by (simp add: lmap_LRU_set jsmap_delete_fresh)
  show ?case
    using Cons.IH [of "LRU_set c (fst e) (snd e)"] Cons.prems step by simp
qed

lemma LRU_set_full:
  assumes "distinct (map fst (lmap c))" "\<not> jsmap_has (lmap c) k"
    and "size_gt (Suc (length (lmap c))) (limit c)" "lmap c \<noteq> []"
  shows "lmap (LRU_set c k v) = tl (lmap c) @ [(k, v)]"
proof -
  obtain e m' where m: "lmap c = e # m'" using assms(4) by (cases "lmap c") auto
  have d: "distinct (map fst (lmap c @ [(k, v)]))"
    using assms(1,2) by (auto simp: jsmap_has_def)
  have "jsmap_delete (lmap c @ [(k, v)]) (fst e) = m' @ [(k, v)]"
    using d m jsmap_delete_hd [of "lmap c @ [(k, v)]" e "m' @ [(k, v)]"] by simp
  then show ?thesis
    using assms(2,3) m by (simp add: lmap_LRU_set jsmap_delete_fresh)
qed

lemma LRU_get_present:
  assumes "distinct (map fst (lmap c))" "(k, v) \<in> set (lmap c)"
  shows "LRU_get c k = (Some v, c\<lparr>lmap := jsmap_delete (lmap c) k @ [(k, v)]\<rparr>)"
proof -
  have "jsmap_has (lmap c) k" using assms(2) by (force simp: jsmap_has_def)
  moreover have "jsmap_get (lmap c) k = Some v"
    using assms by (simp add: jsmap_get_def)
  ultimately show ?thesis
    by (simp add: LRU_get_def jsmap_set_fresh jsmap_has_delete)
qed


lemma length_jsmap_delete:
  "distinct (map fst m) \<Longrightarrow> (k, v) \<in> set m \<Longrightarrow> Suc (length (jsmap_delete m k)) = length m"
proof (induction m)
  case Nil
  then show ?case by simp
next
  case (Cons e m)
  show ?case
  proof (cases "fst e = k")
    case True
    then have "\<not> jsmap_has m k" using Cons.prems(1) by (auto simp: jsmap_has_def)
    then have "jsmap_delete m k = m" by (rule jsmap_delete_fresh)
    then show ?thesis using True by (simp add: jsmap_delete_def)
  next
    case False
    then have "(k, v) \<in> set m" using Cons.prems(2) by auto
    then show ?thesis using Cons False by (simp add: jsmap_delete_def)
  qed
qed

lemma keys_jsmap_delete: "fst ` set (jsmap_delete m k) = fst ` set m - {k}"
  by (auto simp: jsmap_delete_def)

lemma distinct_jsmap_delete: "distinct (map fst m) \<Longrightarrow> distinct (map fst (jsmap_delete m k))"
  by (simp add: jsmap_delete_def distinct_map_filter)

lemma LRU_new_simps [simp]:
  "lmap (LRU_new a) = []" "limit (LRU_new (Some n)) = n"
  by (simp_all add: LRU_new_def)

text \<open>
  C7, amended. A new memory cache of positive capacity \<open>cap\<close> into which \<open>cap + 1\<close>
  distinct keys are \<open>set\<close> has lost exactly one entry, the first one set, which is the
  least recently used. When, before the last \<open>set\<close>, a key is read with \<open>get\<close> at a moment
  at which the cache holds at least one other key, the \<open>get\<close> returns its value and moves
  the key to the newest position, and after the remaining \<open>set\<close>s the key is still in the
  cache: the entry lost is the oldest of the others.
\<close>

theorem LRU_evicts_least_recent:
  assumes cap: "0 < cap" and dist: "distinct (map fst es)" and len: "length es = Suc cap"
  shows "lmap (LRU_sets (LRU_new (Some (Num (real cap)))) es) = tl es \<and>
         (\<forall>xs ys k v. es = xs @ ys \<and> ys \<noteq> [] \<and> (k, v) \<in> set xs \<and> 2 \<le> length xs \<longrightarrow>
            (case LRU_get (LRU_sets (LRU_new (Some (Num (real cap)))) xs) k of
               (r, c2) \<Rightarrow>
                 r = Some v \<and>
                 lmap c2 = jsmap_delete xs k @ [(k, v)] \<and>
                 lmap (LRU_sets c2 ys) = tl (jsmap_delete xs k @ (k, v) # ys) \<and>
                 LRU_has (LRU_sets c2 ys) k))"
proof (intro conjI allI impI)
  let ?new = "LRU_new (Some (Num (real cap)))"
  obtain xs x where es: "es = xs @ [x]"
    using len by (cases es rule: rev_cases) auto
  have lxs: "length xs = cap" using len es by simp
  have "lmap (LRU_sets ?new xs) = lmap ?new @ xs"
    using dist es lxs by (intro LRU_sets_room) auto
  then have m1: "lmap (LRU_sets ?new xs) = xs" by simp
  have "lmap (LRU_set (LRU_sets ?new xs) (fst x) (snd x)) =
          tl (lmap (LRU_sets ?new xs)) @ [(fst x, snd x)]"
    using dist es lxs cap m1 by (intro LRU_set_full) (auto simp: jsmap_has_def)
  then have "lmap (LRU_set (LRU_sets ?new xs) (fst x) (snd x)) = tl xs @ [(fst x, snd x)]"
    using m1 by simp
  then show "lmap (LRU_sets ?new es) = tl es"
    using es lxs cap by (cases xs) (auto simp: LRU_sets_append)
next
  fix xs ys k v
  let ?new = "LRU_new (Some (Num (real cap)))"
  assume a: "es = xs @ ys \<and> ys \<noteq> [] \<and> (k, v) \<in> set xs \<and> 2 \<le> length xs"
  then obtain ys' y where ys: "ys = ys' @ [y]" by (cases ys rule: rev_cases) auto
  have lens: "length xs + length ys' = cap" using a len ys by simp
  have dxs: "distinct (map fst xs)" using a dist by simp
  have "lmap (LRU_sets ?new xs) = lmap ?new @ xs"
    using dxs lens by (intro LRU_sets_room) auto
  then have m1: "lmap (LRU_sets ?new xs) = xs" by simp
  let ?m2 = "jsmap_delete xs k @ [(k, v)]"
  let ?c2 = "(LRU_sets ?new xs)\<lparr>lmap := ?m2\<rparr>"
  have get: "LRU_get (LRU_sets ?new xs) k = (Some v, ?c2)"
    using LRU_get_present [of "LRU_sets ?new xs" k v] dxs a m1 by simp
  have l2: "length ?m2 = length xs"
    using length_jsmap_delete [OF dxs, of k v] a by simp
  have kys: "k \<notin> fst ` set ys" using a dist by (force simp: image_iff)
  have d2: "distinct (map fst (?m2 @ ys))"
    using dist a kys distinct_jsmap_delete [OF dxs, of k]
    by (auto simp: keys_jsmap_delete)
  have "lmap (LRU_sets ?c2 ys') = lmap ?c2 @ ys'"
    using d2 ys l2 lens by (intro LRU_sets_room) auto
  then have m3: "lmap (LRU_sets ?c2 ys') = ?m2 @ ys'" by simp
  have ne: "jsmap_delete xs k \<noteq> []" using l2 a by auto
  have "lmap (LRU_set (LRU_sets ?c2 ys') (fst y) (snd y)) =
          tl (lmap (LRU_sets ?c2 ys')) @ [(fst y, snd y)]"
    using d2 ys m3 l2 lens by (intro LRU_set_full) (auto simp: jsmap_has_def)
  then have m4: "lmap (LRU_sets ?c2 ys) = tl (jsmap_delete xs k @ (k, v) # ys)"
    using ys m3 ne by (simp add: LRU_sets_append)
  have "LRU_has (LRU_sets ?c2 ys) k"
    using m4 ne by (cases "jsmap_delete xs k") (auto simp: LRU_has_def jsmap_has_def)
  with get m4 show "case LRU_get (LRU_sets ?new xs) k of
               (r, c2) \<Rightarrow>
                 r = Some v \<and>
                 lmap c2 = jsmap_delete xs k @ [(k, v)] \<and>
                 lmap (LRU_sets c2 ys) = tl (jsmap_delete xs k @ (k, v) # ys) \<and>
                 LRU_has (LRU_sets c2 ys) k"
    by simp
qed

text \<open>
  C7, as stated, lets any \<open>get\<close> before the last insert protect the key. A key that is alone
  in the cache when it is read is still the oldest afterwards: with capacity one,
  \<open>set a\<close>, \<open>get a\<close>, \<open>set b\<close> evicts \<open>a\<close>.
\<close>

theorem LRU_get_sole_key_evicted:
  "LRU_get (LRU_sets (LRU_new (Some (Num 1))) [(''a'', ''x'')]) ''a''
     = (Some ''x'', \<lparr>limit = Num 1, lmap = [(''a'', ''x'')]\<rparr>) \<and>
   LRU_sets (snd (LRU_get (LRU_sets (LRU_new (Some (Num 1))) [(''a'', ''x'')]) ''a''))
     [(''b'', ''y'')] = \<lparr>limit = Num 1, lmap = [(''b'', ''y'')]\<rparr> \<and>
   \<not> LRU_has (LRU_sets (snd (LRU_get (LRU_sets (LRU_new (Some (Num 1))) [(''a'', ''x'')]) ''a''))
     [(''b'', ''y'')]) ''a''"
  by (simp add: LRU_get_def LRU_set_def LRU_new_def jsmap_has_def jsmap_get_def jsmap_set_def
      jsmap_delete_def LRU_has_def Let_def)

theorem LRU_evicts_least_recent_witness:
  "(0::nat) < 2 \<and> distinct (map fst [(''a'', ''1''), (''b'', ''2''), (''c'', ''3'')]) \<and>
   lmap (LRU_sets (LRU_new (Some (Num (real 2)))) [(''a'', ''1''), (''b'', ''2''), (''c'', ''3'')])
     = [(''b'', ''2''), (''c'', ''3'')] \<and>
   LRU_has (LRU_sets (snd (LRU_get (LRU_sets (LRU_new (Some (Num (real 2))))
       [(''a'', ''1''), (''b'', ''2'')]) ''a'')) [(''c'', ''3'')]) ''a'' \<and>
   lmap (LRU_sets (snd (LRU_get (LRU_sets (LRU_new (Some (Num (real 2))))
       [(''a'', ''1''), (''b'', ''2'')]) ''a'')) [(''c'', ''3'')]) = [(''a'', ''1''), (''c'', ''3'')]"
proof -
  have h: "(0::nat) < 2" "distinct (map fst [(''a'', ''1''), (''b'', ''2''), (''c'', ''3'')])"
    "length [(''a'', ''1''), (''b'', ''2''), (''c'', ''3'')] = Suc 2"
    by simp_all
  have s: "[(''a'', ''1''), (''b'', ''2''), (''c'', ''3'')] = [(''a'', ''1''), (''b'', ''2'')] @ [(''c'', ''3'')] \<and>
      [(''c'', ''3'')] \<noteq> [] \<and> (''a'', ''1'') \<in> set [(''a'', ''1''), (''b'', ''2'')] \<and>
      2 \<le> length [(''a'', ''1''), (''b'', ''2'')]"
    by simp
  note T = LRU_evicts_least_recent [OF h]
  have p1: "lmap (LRU_sets (LRU_new (Some (Num (real 2))))
      [(''a'', ''1''), (''b'', ''2''), (''c'', ''3'')]) = [(''b'', ''2''), (''c'', ''3'')]"
    using T [THEN conjunct1] by simp
  have p2: "LRU_has (LRU_sets (snd (LRU_get (LRU_sets (LRU_new (Some (Num (real 2))))
       [(''a'', ''1''), (''b'', ''2'')]) ''a'')) [(''c'', ''3'')]) ''a'' \<and>
     lmap (LRU_sets (snd (LRU_get (LRU_sets (LRU_new (Some (Num (real 2))))
       [(''a'', ''1''), (''b'', ''2'')]) ''a'')) [(''c'', ''3'')]) = [(''a'', ''1''), (''c'', ''3'')]"
    using T [THEN conjunct2, rule_format, of "[(''a'', ''1''), (''b'', ''2'')]" "[(''c'', ''3'')]"
        "''a''" "''1''", OF s]
    by (simp add: case_prod_beta jsmap_delete_def)
  from h(1,2) p1 p2 show ?thesis by blast
qed

section \<open>The lookup loop of \<open>translateMany\<close>\<close>

lemma map_of_jsmap_delete:
  "map_of (jsmap_delete m k') k = (if k = k' then None else map_of m k)"
  by (induction m) (auto simp: jsmap_delete_def)

lemma map_of_moved:
  "map_of (jsmap_delete m k' @ [(k', v)]) k = (if k = k' then Some v else map_of m k)"
  by (simp add: map_of_jsmap_delete map_add_def split: option.split)

lemma LRU_get_result:
  "LRU_get c k =
     (jsmap_get (lmap c) k,
      case jsmap_get (lmap c) k of None \<Rightarrow> c
      | Some v \<Rightarrow> c\<lparr>lmap := jsmap_delete (lmap c) k @ [(k, v)]\<rparr>)"
proof (cases "jsmap_get (lmap c) k")
  case None
  then show ?thesis by (simp add: LRU_get_def)
next
  case (Some v)
  then have "jsmap_has (lmap c) k"
    by (auto simp: jsmap_has_def jsmap_get_def dest: map_of_SomeD intro: rev_image_eqI)
  then show ?thesis using Some
    by (simp add: LRU_get_def jsmap_set_fresh jsmap_has_delete)
qed

lemma lookup_eq:
  "lookup c d k = (if truthy (jsmap_get (lmap c) k) then jsmap_get (lmap c) k else dmap d k)"
  by (simp add: lookup_def LRU_get_result DiskCache_get_def)

lemma map_of_LRU_get: "map_of (lmap (snd (LRU_get c k'))) k = map_of (lmap c) k"
  by (auto simp: LRU_get_result jsmap_get_def map_of_moved simp del: map_of_append split: option.split)

lemma limit_LRU_get [simp]: "limit (snd (LRU_get c k)) = limit c"
  by (simp add: LRU_get_result split: option.split)

lemma map_of_LRU_set_other:
  "k \<noteq> k' \<Longrightarrow> map_of (lmap (LRU_set c k' v)) k = None \<or>
     map_of (lmap (LRU_set c k' v)) k = map_of (lmap c) k"
  by (simp add: lmap_LRU_set Let_def map_of_jsmap_delete map_of_moved del: map_of_append)

text \<open>One step of the loop, with the lookup named.\<close>

lemma lookup_loop_Cons:
  "lookup_loop c d i (k # ks) =
     (if truthy (lookup c d k) then
        (case lookup_loop (LRU_set (snd (LRU_get c k)) k (the (lookup c d k))) d (Suc i) ks of
           (out, miss, c2) \<Rightarrow> (lookup c d k # out, miss, c2))
      else
        (case lookup_loop (snd (LRU_get c k)) d (Suc i) ks of
           (out, miss, c2) \<Rightarrow> (None # out, i # miss, c2)))"
  by (cases "lookup c d k") (auto simp: lookup_def split: prod.splits option.splits if_splits)

lemma lookup_loop_length:
  "lookup_loop c d i ks = (out, miss, c2) \<Longrightarrow> length out = length ks"
  by (induction ks arbitrary: c i out miss c2)
     (auto simp: lookup_loop_Cons simp del: lookup_loop.simps(2) split: if_splits prod.splits)

lemma lookup_loop_limit:
  "lookup_loop c d i ks = (out, miss, c2) \<Longrightarrow> limit c2 = limit c"
  by (induction ks arbitrary: c i out miss c2)
     (auto simp: lookup_loop_Cons simp del: lookup_loop.simps(2) split: if_splits prod.splits)

lemma lookup_loop_miss_iff:
  "lookup_loop c d i ks = (out, miss, c2) \<Longrightarrow>
   j \<in> set miss \<longleftrightarrow> i \<le> j \<and> j < i + length ks \<and> out ! (j - i) = None"
proof (induction ks arbitrary: c i out miss c2)
  case Nil
  then show ?case by simp
next
  case (Cons k ks)
  show ?case
  proof (cases "truthy (lookup c d k)")
    case True
    then obtain v where v: "lookup c d k = Some v" by (cases "lookup c d k") auto
    obtain out' where l: "lookup_loop (LRU_set (snd (LRU_get c k)) k v) d (Suc i) ks = (out', miss, c2)"
      and o: "out = Some v # out'"
      using Cons.prems True v by (auto simp: lookup_loop_Cons simp del: lookup_loop.simps(2) split: prod.splits)
    have "j \<in> set miss \<longleftrightarrow> Suc i \<le> j \<and> j < Suc i + length ks \<and> out' ! (j - Suc i) = None"
      by (rule Cons.IH [OF l])
    then show ?thesis using o by (cases "j = i") (auto simp: nth_Cons' Suc_diff_le)
  next
    case False
    obtain out' miss' where l: "lookup_loop (snd (LRU_get c k)) d (Suc i) ks = (out', miss', c2)"
      and o: "out = None # out'" and m: "miss = i # miss'"
      using Cons.prems False by (auto simp: lookup_loop_Cons simp del: lookup_loop.simps(2) split: prod.splits)
    have "j \<in> set miss' \<longleftrightarrow> Suc i \<le> j \<and> j < Suc i + length ks \<and> out' ! (j - Suc i) = None"
      by (rule Cons.IH [OF l])
    then show ?thesis using o m by (cases "j = i") (auto simp: nth_Cons' Suc_diff_le)
  qed
qed

lemma lookup_loop_sorted:
  "lookup_loop c d i ks = (out, miss, c2) \<Longrightarrow> sorted_wrt (<) miss"
proof (induction ks arbitrary: c i out miss c2)
  case Nil
  then show ?case by simp
next
  case (Cons k ks)
  show ?case
  proof (cases "truthy (lookup c d k)")
    case True
    then show ?thesis using Cons
      by (auto simp: lookup_loop_Cons simp del: lookup_loop.simps(2) split: prod.splits)
  next
    case False
    obtain out' miss' where l: "lookup_loop (snd (LRU_get c k)) d (Suc i) ks = (out', miss', c2)"
      and m: "miss = i # miss'"
      using Cons.prems False by (auto simp: lookup_loop_Cons simp del: lookup_loop.simps(2) split: prod.splits)
    have "\<forall>j\<in>set miss'. i < j" using lookup_loop_miss_iff [OF l] by auto
    then show ?thesis using Cons.IH [OF l] m by simp
  qed
qed

lemma lookup_loop_hits_truthy:
  "lookup_loop c d i ks = (out, miss, c2) \<Longrightarrow> Some [] \<notin> set out"
proof (induction ks arbitrary: c i out miss c2)
  case Nil
  then show ?case by simp
next
  case (Cons k ks)
  then show ?case
    by (cases "lookup c d k") (auto simp: lookup_loop_Cons simp del: lookup_loop.simps(2) split: prod.splits if_splits)
qed

text \<open>A key with no truthy value in either tier is a miss wherever it stands.\<close>

lemma lookup_loop_falsy_miss:
  "lookup_loop c d i ks = (out, miss, c2) \<Longrightarrow> \<not> truthy (jsmap_get (lmap c) k) \<Longrightarrow>
   \<not> truthy (dmap d k) \<Longrightarrow> n < length ks \<Longrightarrow> ks ! n = k \<Longrightarrow> i + n \<in> set miss"
proof (induction ks arbitrary: c i out miss c2 n)
  case Nil
  then show ?case by simp
next
  case (Cons k' ks)
  have keep: "\<not> truthy (jsmap_get (lmap (snd (LRU_get c k'))) k)"
    using Cons.prems(2) by (simp add: jsmap_get_def map_of_LRU_get)
  show ?case
  proof (cases "truthy (lookup c d k')")
    case True
    then have ne: "k \<noteq> k'" using Cons.prems(2,3) by (auto simp: lookup_eq)
    obtain v where v: "lookup c d k' = Some v" using True by (cases "lookup c d k'") auto
    obtain out' where l: "lookup_loop (LRU_set (snd (LRU_get c k')) k' v) d (Suc i) ks = (out', miss, c2)"
      using Cons.prems(1) True v by (auto simp: lookup_loop_Cons simp del: lookup_loop.simps(2) split: prod.splits)
    have keep2: "\<not> truthy (jsmap_get (lmap (LRU_set (snd (LRU_get c k')) k' v)) k)"
      using keep map_of_LRU_set_other [OF ne, of "snd (LRU_get c k')" v]
      by (auto simp: jsmap_get_def)
    obtain n' where n': "n = Suc n'" using ne Cons.prems(5) by (cases n) auto
    have "Suc i + n' \<in> set miss"
      using Cons.IH [OF l keep2 Cons.prems(3), of n'] Cons.prems(4,5) n' by simp
    then show ?thesis using n' by simp
  next
    case False
    obtain out' miss' where l: "lookup_loop (snd (LRU_get c k')) d (Suc i) ks = (out', miss', c2)"
      and m: "miss = i # miss'"
      using Cons.prems(1) False by (auto simp: lookup_loop_Cons simp del: lookup_loop.simps(2) split: prod.splits)
    show ?thesis
    proof (cases n)
      case 0
      then show ?thesis using m by simp
    next
      case (Suc n')
      have "Suc i + n' \<in> set miss'"
        using Cons.IH [OF l keep Cons.prems(3), of n'] Cons.prems(4,5) Suc by simp
      then show ?thesis using m Suc by simp
    qed
  qed
qed

section \<open>\<open>translateMany\<close>: the provider call\<close>

lemma translateMany_unfold:
  "lookup_loop (lru P) (diskCache P) 0 (keys_of sha1 P texts) = (out0, missIdx, c1) \<Longrightarrow>
   translateMany sha1 prov P texts =
     (if missIdx = [] then (out0, P\<lparr>lru := c1\<rparr>, [])
      else if offlineOnly P \<or> prov = None
        then (fill_originals out0 (zip missIdx (map (\<lambda>i. texts ! i) missIdx)), P\<lparr>lru := c1\<rparr>, [])
      else
        (case the prov (map (\<lambda>i. texts ! i) missIdx) (src_of P) (tgt_of P) of
           Inl e \<Rightarrow>
             (fill_originals out0 (zip missIdx (map (\<lambda>i. texts ! i) missIdx)), P\<lparr>lru := c1\<rparr>,
              [ProviderCall (map (\<lambda>i. texts ! i) missIdx) (src_of P) (tgt_of P)])
         | Inr translated \<Rightarrow>
             (case store_loop translated (keys_of sha1 P texts) 0
                     (zip missIdx (map (\<lambda>i. texts ! i) missIdx)) (out0, c1, diskCache P) of
                (out', c2, d2) \<Rightarrow>
                  (out', P\<lparr>lru := c2, diskCache := d2\<rparr>,
                   [ProviderCall (map (\<lambda>i. texts ! i) missIdx) (src_of P) (tgt_of P)]))))"
  by (cases prov) (simp_all add: translateMany_def Let_def split: sum.split prod.split)

lemma translateMany_calls:
  "lookup_loop (lru P) (diskCache P) 0 (keys_of sha1 P texts) = (out0, missIdx, c1) \<Longrightarrow>
   snd (snd (translateMany sha1 prov P texts)) =
     (if missIdx = [] \<or> offlineOnly P \<or> prov = None then []
      else [ProviderCall (map (\<lambda>i. texts ! i) missIdx) (src_of P) (tgt_of P)])"
  by (simp add: translateMany_unfold split: sum.split prod.split)

text \<open>The definitions that a run of \<open>translateMany\<close> on given values unfolds.\<close>

lemmas eval_defs = translateMany_def plugin0_def keys_of_def src_of_def tgt_of_def
  fingerprint_def prehash_def LRU_new_def LRU_get_def LRU_set_def jsmap_has_def jsmap_get_def
  jsmap_set_def jsmap_delete_def DiskCache_get_def DiskCache_set_def lookup_def Let_def

text \<open>
  C1, as stated, has \<open>translateMany\<close> hand its misses to the dispatcher and never call
  the provider itself. In the code the order is the reverse: the dispatcher's loop calls
  \<open>translateMany\<close>, and \<open>translateMany\<close> calls \<open>this.provider.translateMany\<close>. With empty
  caches and one text, the trace of \<open>translateMany\<close> holds a provider call.
\<close>

theorem translateMany_direct_call:
  "snd (snd (translateMany id (Some (\<lambda>ts s t. Inr (map Some ts))) (plugin0 (Num 5000))
      [''Hello''])) = [ProviderCall [''Hello''] ''auto'' ''ko'']"
  by (simp add: eval_defs)

text \<open>
  C1, amended. With \<open>missIdx\<close> the miss indices that the lookup loop collects:
  \<open>translateMany\<close> makes no provider call when there is no miss, when the plugin is
  offline or when no provider is set, and otherwise makes exactly one, itself, with the
  texts at the miss indices and the two languages. The miss indices are strictly
  increasing positions of the input, so the texts keep their relative order, and every
  position whose fingerprint has no truthy value in either tier is one of them.
\<close>

theorem translateMany_calls_provider:
  assumes l: "lookup_loop (lru P) (diskCache P) 0 (keys_of sha1 P texts) = (out0, missIdx, c1)"
  shows "snd (snd (translateMany sha1 prov P texts)) =
           (if missIdx = [] \<or> offlineOnly P \<or> prov = None then []
            else [ProviderCall (map (\<lambda>i. texts ! i) missIdx) (src_of P) (tgt_of P)]) \<and>
         sorted_wrt (<) missIdx \<and> (\<forall>i\<in>set missIdx. i < length texts) \<and>
         (\<forall>n<length texts.
            \<not> truthy (lookup (lru P) (diskCache P) (keys_of sha1 P texts ! n)) \<longrightarrow>
            n \<in> set missIdx)"
proof (intro conjI allI impI ballI)
  show "snd (snd (translateMany sha1 prov P texts)) =
           (if missIdx = [] \<or> offlineOnly P \<or> prov = None then []
            else [ProviderCall (map (\<lambda>i. texts ! i) missIdx) (src_of P) (tgt_of P)])"
    by (rule translateMany_calls [OF l])
  show "sorted_wrt (<) missIdx" by (rule lookup_loop_sorted [OF l])
  show "i < length texts" if "i \<in> set missIdx" for i
    using lookup_loop_miss_iff [OF l, of i] that by (simp add: keys_of_def)
  show "n \<in> set missIdx"
    if "n < length texts"
      "\<not> truthy (lookup (lru P) (diskCache P) (keys_of sha1 P texts ! n))" for n
  proof -
    have "0 + n \<in> set missIdx"
      using that
      by (intro lookup_loop_falsy_miss [OF l]) (auto simp: lookup_eq keys_of_def split: if_splits)
    then show ?thesis by simp
  qed
qed

theorem translateMany_calls_provider_witness:
  "lookup_loop (lru (plugin0 (Num 5000))) (diskCache (plugin0 (Num 5000))) 0
     (keys_of id (plugin0 (Num 5000)) [''Hello'', ''World''])
     = ([None, None], [0, 1], lru (plugin0 (Num 5000))) \<and>
   snd (snd (translateMany id (Some (\<lambda>ts s t. Inr (map Some ts))) (plugin0 (Num 5000))
      [''Hello'', ''World''])) = [ProviderCall [''Hello'', ''World''] ''auto'' ''ko'']"
proof -
  have h: "lookup_loop (lru (plugin0 (Num 5000))) (diskCache (plugin0 (Num 5000))) 0
     (keys_of id (plugin0 (Num 5000)) [''Hello'', ''World''])
     = ([None, None], [0, 1], lru (plugin0 (Num 5000)))"
    by (simp add: eval_defs)
  have "snd (snd (translateMany id (Some (\<lambda>ts s t. Inr (map Some ts))) (plugin0 (Num 5000))
      [''Hello'', ''World''])) = [ProviderCall [''Hello'', ''World''] ''auto'' ''ko'']"
    using translateMany_calls_provider [OF h, of "Some (\<lambda>ts s t. Inr (map Some ts))"]
    by (simp add: plugin0_def src_of_def tgt_of_def)
  with h show ?thesis by blast
qed

section \<open>\<open>translateMany\<close>: entries that hold the empty string\<close>

text \<open>
  C10, as stated, makes a text a miss as soon as one tier maps its fingerprint to the
  empty string. The lookup is \<open>lru.get(k) || diskCache.get(k)\<close>: when the memory cache
  holds the empty string and the persistent cache a translation, the text is a hit, the
  translation is returned and promoted, and the provider is not called.
\<close>

theorem empty_entry_other_tier_hit:
  "jsmap_get [(''azure|auto|ko|Hello'', [])] (fingerprint id ''azure'' ''auto'' ''ko'' ''Hello'')
     = Some [] \<and>
   translateMany id (Some (\<lambda>ts s t. Inr (map Some ts)))
     ((plugin0 (Num 5000))\<lparr>lru := \<lparr>limit = Num 5000, lmap = [(''azure|auto|ko|Hello'', [])]\<rparr>,
        diskCache := \<lparr>dmap = [''azure|auto|ko|Hello'' \<mapsto> ''X''], dirty = False, path = ''p''\<rparr>\<rparr>)
     [''Hello'']
   = ([Some ''X''],
      (plugin0 (Num 5000))\<lparr>lru := \<lparr>limit = Num 5000, lmap = [(''azure|auto|ko|Hello'', ''X'')]\<rparr>,
        diskCache := \<lparr>dmap = [''azure|auto|ko|Hello'' \<mapsto> ''X''], dirty = False, path = ''p''\<rparr>\<rparr>,
      [])"
  by (simp add: eval_defs)

text \<open>
  C10, amended. A text whose fingerprint has no truthy value in either tier (the empty
  string or nothing in the memory cache, and the empty string or nothing in the
  persistent cache) is a miss: its index is among the miss indices and the lookup loop
  leaves its slot unassigned. No slot is ever assigned the empty string by the lookup.
  When the plugin is not offline and a provider is set, the one provider call of this
  run carries the text.
\<close>

theorem empty_entry_is_miss:
  assumes l: "lookup_loop (lru P) (diskCache P) 0 (keys_of sha1 P texts) = (out0, missIdx, c1)"
    and n: "n < length texts"
    and m: "\<not> truthy (jsmap_get (lmap (lru P)) (keys_of sha1 P texts ! n))"
    and d: "\<not> truthy (dmap (diskCache P) (keys_of sha1 P texts ! n))"
  shows "n \<in> set missIdx \<and> out0 ! n = None \<and> Some [] \<notin> set out0 \<and>
         (\<not> offlineOnly P \<longrightarrow>
            (\<exists>ts. snd (snd (translateMany sha1 (Some f) P texts))
                     = [ProviderCall ts (src_of P) (tgt_of P)] \<and> texts ! n \<in> set ts))"
proof -
  have "0 + n \<in> set missIdx"
    using n m d by (intro lookup_loop_falsy_miss [OF l]) (auto simp: keys_of_def)
  then have mem: "n \<in> set missIdx" by simp
  then have none: "out0 ! n = None" using lookup_loop_miss_iff [OF l, of n] by simp
  have ne: "Some [] \<notin> set out0" by (rule lookup_loop_hits_truthy [OF l])
  have "texts ! n \<in> set (map (\<lambda>i. texts ! i) missIdx)" using mem by auto
  moreover have "missIdx \<noteq> []" using mem by auto
  ultimately have "\<not> offlineOnly P \<longrightarrow>
            (\<exists>ts. snd (snd (translateMany sha1 (Some f) P texts))
                     = [ProviderCall ts (src_of P) (tgt_of P)] \<and> texts ! n \<in> set ts)"
    using translateMany_calls [OF l, of "Some f"] by auto
  with mem none ne show ?thesis by blast
qed

theorem empty_entry_is_miss_witness:
  "lookup_loop \<lparr>limit = Num 5000, lmap = [(''azure|auto|ko|Hello'', [])]\<rparr>
     \<lparr>dmap = [''azure|auto|ko|Hello'' \<mapsto> []], dirty = False, path = ''p''\<rparr> 0
     [''azure|auto|ko|Hello'']
     = ([None], [0], \<lparr>limit = Num 5000, lmap = [(''azure|auto|ko|Hello'', [])]\<rparr>) \<and>
   snd (snd (translateMany id (Some (\<lambda>ts s t. Inr (map Some ts)))
     ((plugin0 (Num 5000))\<lparr>lru := \<lparr>limit = Num 5000, lmap = [(''azure|auto|ko|Hello'', [])]\<rparr>,
        diskCache := \<lparr>dmap = [''azure|auto|ko|Hello'' \<mapsto> []], dirty = False, path = ''p''\<rparr>\<rparr>)
     [''Hello''])) = [ProviderCall [''Hello''] ''auto'' ''ko'']"
proof -
  let ?c = "\<lparr>limit = Num 5000, lmap = [(''azure|auto|ko|Hello'', [])]\<rparr>"
  let ?d = "\<lparr>dmap = [''azure|auto|ko|Hello'' \<mapsto> []], dirty = False, path = ''p''\<rparr>"
  let ?P = "(plugin0 (Num 5000))\<lparr>lru := ?c, diskCache := ?d\<rparr>"
  have k: "keys_of id ?P [''Hello''] = [''azure|auto|ko|Hello'']"
    by (simp add: eval_defs)
  have h0: "lookup_loop ?c ?d 0 [''azure|auto|ko|Hello''] = ([None], [0], ?c)"
    by (simp add: eval_defs)
  then have h: "lookup_loop (lru ?P) (diskCache ?P) 0 (keys_of id ?P [''Hello''])
      = ([None], [0], ?c)"
    using k by simp
  have n: "(0::nat) < length [''Hello'']" by simp
  have m: "\<not> truthy (jsmap_get (lmap (lru ?P)) (keys_of id ?P [''Hello''] ! 0))"
    using k by (simp add: jsmap_get_def)
  have d: "\<not> truthy (dmap (diskCache ?P) (keys_of id ?P [''Hello''] ! 0))"
    using k by simp
  have o: "\<not> offlineOnly ?P" by (simp add: plugin0_def)
  obtain ts where ts: "snd (snd (translateMany id (Some (\<lambda>ts s t. Inr (map Some ts))) ?P
      [''Hello''])) = [ProviderCall ts (src_of ?P) (tgt_of ?P)]" "[''Hello''] ! 0 \<in> set ts"
    using empty_entry_is_miss [OF h n m d, of "\<lambda>ts s t. Inr (map Some ts)"] o by blast
  have "snd (snd (translateMany id (Some (\<lambda>ts s t. Inr (map Some ts))) ?P [''Hello'']))
      = [ProviderCall [''Hello''] ''auto'' ''ko'']"
    using ts(1) translateMany_calls [OF h, of "Some (\<lambda>ts s t. Inr (map Some ts))" ]
    by (simp add: plugin0_def src_of_def tgt_of_def)
  with h0 show ?thesis by blast
qed

section \<open>\<open>translateMany\<close>: when every text is a hit\<close>

lemma size_gt_mono: "m \<le> n \<Longrightarrow> \<not> size_gt n L \<Longrightarrow> \<not> size_gt m L"
  by (cases L) auto

lemma keys_LRU_get: "fst ` set (lmap (snd (LRU_get c k))) = fst ` set (lmap c)"
proof (cases "jsmap_get (lmap c) k")
  case None
  then show ?thesis by (simp add: LRU_get_result)
next
  case (Some v)
  then have "k \<in> fst ` set (lmap c)"
    by (auto simp: jsmap_get_def dest: map_of_SomeD intro: rev_image_eqI)
  then show ?thesis using Some by (auto simp: LRU_get_result keys_jsmap_delete)
qed

lemma distinct_LRU_get:
  "distinct (map fst (lmap c)) \<Longrightarrow> distinct (map fst (lmap (snd (LRU_get c k))))"
  by (auto simp: LRU_get_result distinct_jsmap_delete keys_jsmap_delete split: option.split)

lemma length_distinct_keys: "distinct (map fst m) \<Longrightarrow> length m = card (fst ` set m)"
  using distinct_card [of "map fst m"] by simp

text \<open>A \<open>set\<close> that does not overflow moves the entry to the end and evicts nothing.\<close>

lemma LRU_set_room:
  assumes d: "distinct (map fst (lmap c))"
    and r: "\<not> size_gt (card (insert k (fst ` set (lmap c)))) (limit c)"
  shows "lmap (LRU_set c k v) = jsmap_delete (lmap c) k @ [(k, v)]"
proof -
  have "length (jsmap_delete (lmap c) k) = card (fst ` set (lmap c) - {k})"
    using length_distinct_keys [OF distinct_jsmap_delete [OF d, of k]]
    by (simp add: keys_jsmap_delete)
  then have "Suc (length (jsmap_delete (lmap c) k)) = card (insert k (fst ` set (lmap c)))"
    by (simp add: card.insert_remove)
  then show ?thesis using r by (simp add: lmap_LRU_set)
qed

lemma lookup_loop_all_hits:
  assumes "distinct (map fst (lmap c))"
    and "\<not> size_gt (card (fst ` set (lmap c) \<union> set ks)) (limit c)"
    and "\<forall>k\<in>set ks. truthy (lookup c d k)"
    and "lookup_loop c d i ks = (out, miss, c2)"
  shows "miss = [] \<and> out = map (lookup c d) ks \<and>
         (\<forall>k. map_of (lmap c2) k = (if k \<in> set ks then lookup c d k else map_of (lmap c) k))"
  using assms
proof (induction ks arbitrary: c i out miss c2)
  case Nil
  then show ?case by simp
next
  case (Cons k ks)
  let ?c1 = "snd (LRU_get c k)"
  obtain v where v: "lookup c d k = Some v" and vne: "v \<noteq> []"
    using Cons.prems(3) by (cases "lookup c d k") auto
  let ?c' = "LRU_set ?c1 k v"
  obtain out' where l: "lookup_loop ?c' d (Suc i) ks = (out', miss, c2)"
    and o: "out = Some v # out'"
    using Cons.prems(4) v vne
    by (auto simp: lookup_loop_Cons simp del: lookup_loop.simps(2) split: prod.splits)
  have d1: "distinct (map fst (lmap ?c1))" by (rule distinct_LRU_get [OF Cons.prems(1)])
  have sub: "card (insert k (fst ` set (lmap ?c1))) \<le> card (fst ` set (lmap c) \<union> set (k # ks))"
    by (rule card_mono) (auto simp: keys_LRU_get)
  have room: "\<not> size_gt (card (insert k (fst ` set (lmap ?c1)))) (limit ?c1)"
    using size_gt_mono [OF sub] Cons.prems(2) by simp
  have m': "lmap ?c' = jsmap_delete (lmap ?c1) k @ [(k, v)]"
    by (rule LRU_set_room [OF d1 room])
  have mo: "map_of (lmap ?c') k' = (if k' = k then Some v else map_of (lmap c) k')" for k'
    using m' by (simp add: map_of_moved map_of_LRU_get del: map_of_append)
  have lk: "lookup ?c' d k' = lookup c d k'" for k'
    using mo [of k'] v vne by (auto simp: lookup_eq jsmap_get_def)
  have keys': "fst ` set (lmap ?c') = insert k (fst ` set (lmap c))"
    using m' by (auto simp: keys_jsmap_delete keys_LRU_get)
  have d': "distinct (map fst (lmap ?c'))"
    using m' distinct_jsmap_delete [OF d1, of k] by (simp add: keys_jsmap_delete)
  have r': "\<not> size_gt (card (fst ` set (lmap ?c') \<union> set ks)) (limit ?c')"
    using Cons.prems(2) keys' by simp
  have t': "\<forall>k'\<in>set ks. truthy (lookup ?c' d k')"
    using Cons.prems(3) lk by simp
  have IH: "miss = [] \<and> out' = map (lookup ?c' d) ks \<and>
      (\<forall>k'. map_of (lmap c2) k' = (if k' \<in> set ks then lookup ?c' d k' else map_of (lmap ?c') k'))"
    by (rule Cons.IH [OF d' r' t' l])
  show ?case
  proof (intro conjI allI)
    show "miss = []" using IH by simp
    show "out = map (lookup c d) (k # ks)" using IH o v lk by simp
    show "map_of (lmap c2) k' =
        (if k' \<in> set (k # ks) then lookup c d k' else map_of (lmap c) k')" for k'
      using IH lk mo [of k'] v by auto
  qed
qed

text \<open>With a capacity of at least one, the entry just \<open>set\<close> is in the memory cache.\<close>

lemma LRU_set_holds:
  assumes "\<not> size_gt 1 (limit c)"
  shows "jsmap_get (lmap (LRU_set c k v)) k = Some v"
proof -
  let ?m = "jsmap_delete (lmap c) k"
  let ?m2 = "?m @ [(k, v)]"
  have g: "map_of ?m2 k = Some v" by (simp add: map_of_moved del: map_of_append)
  show ?thesis
  proof (cases "size_gt (length ?m2) (limit c)")
    case False
    then show ?thesis using g by (simp add: lmap_LRU_set jsmap_get_def del: map_of_append)
  next
    case True
    have "?m \<noteq> []"
    proof
      assume "?m = []"
      then show False using True assms by simp
    qed
    then obtain e m' where e: "?m = e # m'" by (cases ?m) auto
    then have "e \<in> set ?m" by simp
    then have ne: "fst e \<noteq> k" by (simp add: jsmap_delete_def)
    have "map_of (jsmap_delete ?m2 (fst (hd ?m2))) k = map_of ?m2 k"
      using ne e by (simp add: map_of_jsmap_delete del: map_of_append)
    then show ?thesis using True g
      by (simp add: lmap_LRU_set jsmap_get_def Let_def del: map_of_append)
  qed
qed

lemma LRU_sets_last:
  "es \<noteq> [] \<Longrightarrow> \<not> size_gt 1 (limit c) \<Longrightarrow>
   jsmap_get (lmap (LRU_sets c es)) (fst (last es)) = Some (snd (last es))"
proof (induction es rule: rev_induct)
  case Nil
  then show ?case by simp
next
  case (snoc e es)
  have "\<not> size_gt 1 (limit (LRU_sets c es))" using snoc.prems(2) by simp
  then show ?case by (simp add: LRU_sets_append LRU_set_holds)
qed

text \<open>The slots and the memory cache do not depend on the index the loop starts at.\<close>

lemma lookup_loop_index:
  "fst (lookup_loop c d i ks) = fst (lookup_loop c d j ks) \<and>
   snd (snd (lookup_loop c d i ks)) = snd (snd (lookup_loop c d j ks))"
proof (induction ks arbitrary: c i j)
  case Nil
  then show ?case by simp
next
  case (Cons k ks)
  show ?case
  proof (cases "truthy (lookup c d k)")
    case True
    then show ?thesis
      using Cons.IH [of "LRU_set (snd (LRU_get c k)) k (the (lookup c d k))" "Suc i" "Suc j"]
      by (simp add: lookup_loop_Cons case_prod_beta del: lookup_loop.simps(2))
  next
    case False
    then show ?thesis
      using Cons.IH [of "snd (LRU_get c k)" "Suc i" "Suc j"]
      by (simp add: lookup_loop_Cons case_prod_beta del: lookup_loop.simps(2))
  qed
qed

lemma cache_after_Nil [simp]: "cache_after c d [] = c"
  by (simp add: cache_after_def)

lemma cache_after_Cons:
  "cache_after c d (k # ks) =
     cache_after (if truthy (lookup c d k)
                  then LRU_set (snd (LRU_get c k)) k (the (lookup c d k))
                  else snd (LRU_get c k)) d ks"
  using lookup_loop_index [of _ d "Suc 0" ks 0]
  by (simp add: cache_after_def lookup_loop_Cons case_prod_beta del: lookup_loop.simps(2))

lemma cache_after_snoc:
  "cache_after c d (ks @ [k]) =
     (if truthy (lookup (cache_after c d ks) d k)
      then LRU_set (snd (LRU_get (cache_after c d ks) k)) k (the (lookup (cache_after c d ks) d k))
      else snd (LRU_get (cache_after c d ks) k))"
proof (induction ks arbitrary: c)
  case Nil
  show ?case by (simp add: cache_after_Cons)
next
  case (Cons x ks)
  show ?case by (simp add: cache_after_Cons Cons.IH)
qed

lemma limit_cache_after [simp]: "limit (cache_after c d ks) = limit c"
  using lookup_loop_limit [of c d 0 ks]
  by (cases "lookup_loop c d 0 ks") (simp add: cache_after_def)

lemma found_at_Cons_0: "found_at c d (k # ks) 0 = lookup c d k"
  by (simp add: found_at_def)

lemma found_at_Cons_Suc:
  "found_at c d (k # ks) (Suc n) =
     found_at (if truthy (lookup c d k)
               then LRU_set (snd (LRU_get c k)) k (the (lookup c d k))
               else snd (LRU_get c k)) d ks n"
  by (simp add: found_at_def cache_after_Cons)

lemma lookup_loop_out_nth:
  "lookup_loop c d i ks = (out, miss, c2) \<Longrightarrow> n < length ks \<Longrightarrow>
   out ! n = (if truthy (found_at c d ks n) then found_at c d ks n else None)"
proof (induction ks arbitrary: c i out miss c2 n)
  case Nil
  then show ?case by simp
next
  case (Cons k ks)
  show ?case
  proof (cases "truthy (lookup c d k)")
    case True
    then obtain v where v: "lookup c d k = Some v" by (cases "lookup c d k") auto
    obtain out' where
      l: "lookup_loop (LRU_set (snd (LRU_get c k)) k v) d (Suc i) ks = (out', miss, c2)"
      and o: "out = Some v # out'"
      using Cons.prems(1) True v
      by (auto simp: lookup_loop_Cons simp del: lookup_loop.simps(2) split: prod.splits)
    show ?thesis
    proof (cases n)
      case 0
      then show ?thesis using o v True by (simp add: found_at_Cons_0)
    next
      case (Suc n')
      then show ?thesis
        using Cons.IH [OF l, of n'] Cons.prems(2) o v True by (simp add: found_at_Cons_Suc)
    qed
  next
    case False
    obtain out' miss' where
      l: "lookup_loop (snd (LRU_get c k)) d (Suc i) ks = (out', miss', c2)"
      and o: "out = None # out'"
      using Cons.prems(1) False
      by (auto simp: lookup_loop_Cons simp del: lookup_loop.simps(2) split: prod.splits)
    show ?thesis
    proof (cases n)
      case 0
      then show ?thesis using o False by (simp add: found_at_Cons_0)
    next
      case (Suc n')
      then show ?thesis
        using Cons.IH [OF l, of n'] Cons.prems(2) o False by (simp add: found_at_Cons_Suc)
    qed
  qed
qed

text \<open>There is no miss exactly when every lookup finds a truthy value.\<close>

lemma all_found_iff:
  assumes l: "lookup_loop c d i ks = (out, miss, c2)"
  shows "(\<forall>n<length ks. truthy (found_at c d ks n)) \<longleftrightarrow> miss = []"
proof
  assume h: "\<forall>n<length ks. truthy (found_at c d ks n)"
  show "miss = []"
  proof (rule ccontr)
    assume "miss \<noteq> []"
    then obtain j where j: "j \<in> set miss" by (cases miss) auto
    then have b: "i \<le> j" "j < i + length ks" "out ! (j - i) = None"
      using lookup_loop_miss_iff [OF l, of j] by simp_all
    then have "j - i < length ks" by simp
    then show False using lookup_loop_out_nth [OF l, of "j - i"] h b(3) by auto
  qed
next
  assume m: "miss = []"
  show "\<forall>n<length ks. truthy (found_at c d ks n)"
  proof (intro allI impI)
    fix n assume n: "n < length ks"
    have "i + n \<notin> set miss" using m by simp
    then have "out ! n \<noteq> None" using lookup_loop_miss_iff [OF l, of "i + n"] n by simp
    then show "truthy (found_at c d ks n)"
      using lookup_loop_out_nth [OF l n] by (auto split: if_splits)
  qed
qed

lemma found_in_disk:
  "\<forall>k\<in>set ks. truthy (dmap d k) \<Longrightarrow> n < length ks \<Longrightarrow> truthy (found_at c d ks n)"
  by (simp add: found_at_def lookup_eq)

text \<open>
  C6, as stated, asks only that every fingerprint be present in one of the tiers. An
  entry that holds the empty string is present and is still a miss; and with a memory
  cache of capacity one, promoting the persistent hit for the first text evicts the
  memory-only entry of the second text before it is looked up. In both runs the provider
  is called.
\<close>

theorem present_entries_reach_provider:
  "snd (snd (translateMany id (Some (\<lambda>ts s t. Inr (map Some ts)))
     ((plugin0 (Num 5000))\<lparr>diskCache :=
        \<lparr>dmap = [''azure|auto|ko|Hello'' \<mapsto> []], dirty = False, path = ''p''\<rparr>\<rparr>)
     [''Hello''])) = [ProviderCall [''Hello''] ''auto'' ''ko''] \<and>
   snd (snd (translateMany id (Some (\<lambda>ts s t. Inr (map Some ts)))
     ((plugin0 (Num 1))\<lparr>lru := \<lparr>limit = Num 1, lmap = [(''azure|auto|ko|a'', ''A'')]\<rparr>,
        diskCache := \<lparr>dmap = [''azure|auto|ko|b'' \<mapsto> ''B''], dirty = False, path = ''p''\<rparr>\<rparr>)
     [''b'', ''a''])) = [ProviderCall [''a''] ''auto'' ''ko'']"
  by (simp add: eval_defs)

text \<open>
  C6, amended. Let every text find, when it is looked up, a truthy (non-empty) value for
  its fingerprint in the memory cache, as the texts before it have left it, or else in
  the persistent cache; this is exactly the condition under which the lookup loop
  collects no miss. Then \<open>translateMany\<close> returns, in input order, the value found for
  each text, makes no provider call and changes nothing of the plugin but the memory
  cache; and every value found is \<open>set\<close> into the memory cache for its fingerprint, where
  a cache of capacity at least one then holds it. The condition holds whenever every
  fingerprint has a truthy value in the persistent cache, whatever the capacity; and it
  holds whenever every fingerprint has a truthy value in one of the tiers and the memory
  cache has room for its keys together with these fingerprints, in which case the
  memory cache afterwards maps every fingerprint to the value returned for it.
\<close>

theorem translateMany_all_hits:
  "((\<forall>n<length (keys_of hash P texts).
        truthy (found_at (lru P) (diskCache P) (keys_of hash P texts) n)) \<longrightarrow>
      fst (translateMany hash prov P texts)
        = map (found_at (lru P) (diskCache P) (keys_of hash P texts)) [0..<length texts] \<and>
      snd (snd (translateMany hash prov P texts)) = [] \<and>
      fst (snd (translateMany hash prov P texts))
        = P\<lparr>lru := cache_after (lru P) (diskCache P) (keys_of hash P texts)\<rparr> \<and>
      (\<forall>n<length (keys_of hash P texts). \<forall>v.
         found_at (lru P) (diskCache P) (keys_of hash P texts) n = Some v \<longrightarrow>
           cache_after (lru P) (diskCache P) (take (Suc n) (keys_of hash P texts))
             = LRU_set (snd (LRU_get (cache_after (lru P) (diskCache P)
                                        (take n (keys_of hash P texts)))
                                     (keys_of hash P texts ! n)))
                       (keys_of hash P texts ! n) v \<and>
           (\<not> size_gt 1 (limit (lru P)) \<longrightarrow>
              jsmap_get (lmap (cache_after (lru P) (diskCache P)
                                 (take (Suc n) (keys_of hash P texts))))
                        (keys_of hash P texts ! n) = Some v))) \<and>
   ((\<forall>n<length (keys_of hash P texts).
        truthy (found_at (lru P) (diskCache P) (keys_of hash P texts) n)) \<longleftrightarrow>
      fst (snd (lookup_loop (lru P) (diskCache P) 0 (keys_of hash P texts))) = []) \<and>
   ((\<forall>k\<in>set (keys_of hash P texts). truthy (dmap (diskCache P) k)) \<longrightarrow>
      (\<forall>n<length (keys_of hash P texts).
         truthy (found_at (lru P) (diskCache P) (keys_of hash P texts) n))) \<and>
   (distinct (lru_keys (lru P)) \<and>
    \<not> size_gt (card (set (lru_keys (lru P)) \<union> set (keys_of hash P texts))) (limit (lru P)) \<and>
    (\<forall>k\<in>set (keys_of hash P texts). truthy (lookup (lru P) (diskCache P) k)) \<longrightarrow>
      (\<forall>n<length (keys_of hash P texts).
         truthy (found_at (lru P) (diskCache P) (keys_of hash P texts) n)) \<and>
      fst (translateMany hash prov P texts)
        = map (lookup (lru P) (diskCache P)) (keys_of hash P texts) \<and>
      (\<forall>k\<in>set (keys_of hash P texts).
         jsmap_get (lmap (lru (fst (snd (translateMany hash prov P texts))))) k
           = lookup (lru P) (diskCache P) k))"
proof -
  let ?c = "lru P" let ?d = "diskCache P" let ?ks = "keys_of hash P texts"
  let ?H = "\<forall>n<length ?ks. truthy (found_at ?c ?d ?ks n)"
  obtain out miss c2 where l: "lookup_loop ?c ?d 0 ?ks = (out, miss, c2)"
    by (cases "lookup_loop ?c ?d 0 ?ks") auto
  have c2: "c2 = cache_after ?c ?d ?ks" using l by (simp add: cache_after_def)
  have lks: "length ?ks = length texts" by (simp add: keys_of_def)
  have lo: "length out = length texts" using lookup_loop_length [OF l] lks by simp
  have iff: "?H \<longleftrightarrow> miss = []" by (rule all_found_iff [OF l])
  have tm: "translateMany hash prov P texts = (out, P\<lparr>lru := c2\<rparr>, [])" if "miss = []"
    using translateMany_unfold [OF l, of prov] that by simp
  have A: "fst (translateMany hash prov P texts) = map (found_at ?c ?d ?ks) [0..<length texts] \<and>
      snd (snd (translateMany hash prov P texts)) = [] \<and>
      fst (snd (translateMany hash prov P texts)) = P\<lparr>lru := cache_after ?c ?d ?ks\<rparr> \<and>
      (\<forall>n<length ?ks. \<forall>v. found_at ?c ?d ?ks n = Some v \<longrightarrow>
         cache_after ?c ?d (take (Suc n) ?ks)
           = LRU_set (snd (LRU_get (cache_after ?c ?d (take n ?ks)) (?ks ! n))) (?ks ! n) v \<and>
         (\<not> size_gt 1 (limit ?c) \<longrightarrow>
            jsmap_get (lmap (cache_after ?c ?d (take (Suc n) ?ks))) (?ks ! n) = Some v))"
    if H: ?H
  proof (intro conjI allI impI)
    have m: "miss = []" using iff H by simp
    have "out ! n = found_at ?c ?d ?ks n" if "n < length texts" for n
      using lookup_loop_out_nth [OF l, of n] that lks H by simp
    then have "out = map (found_at ?c ?d ?ks) [0..<length texts]"
      using lo by (intro nth_equalityI) simp_all
    then show "fst (translateMany hash prov P texts) = map (found_at ?c ?d ?ks) [0..<length texts]"
      using tm [OF m] by simp
    show "snd (snd (translateMany hash prov P texts)) = []" using tm [OF m] by simp
    show "fst (snd (translateMany hash prov P texts)) = P\<lparr>lru := cache_after ?c ?d ?ks\<rparr>"
      using tm [OF m] c2 by simp
  next
    fix n v
    assume n: "n < length ?ks" and v: "found_at ?c ?d ?ks n = Some v"
    have tr: "truthy (found_at ?c ?d ?ks n)" using H n by simp
    have tk: "take (Suc n) ?ks = take n ?ks @ [?ks ! n]" using n by (rule take_Suc_conv_app_nth)
    have lk: "lookup (cache_after ?c ?d (take n ?ks)) ?d (?ks ! n) = Some v"
      using v by (simp add: found_at_def)
    show st: "cache_after ?c ?d (take (Suc n) ?ks)
        = LRU_set (snd (LRU_get (cache_after ?c ?d (take n ?ks)) (?ks ! n))) (?ks ! n) v"
      using tr v lk unfolding tk by (simp add: cache_after_snoc)
    show "jsmap_get (lmap (cache_after ?c ?d (take (Suc n) ?ks))) (?ks ! n) = Some v"
      if "\<not> size_gt 1 (limit ?c)"
      unfolding st using that by (intro LRU_set_holds) simp
  qed
  have B: ?H if "\<forall>k\<in>set ?ks. truthy (dmap ?d k)"
    using that found_in_disk by blast
  have C: "?H \<and> fst (translateMany hash prov P texts) = map (lookup ?c ?d) ?ks \<and>
      (\<forall>k\<in>set ?ks. jsmap_get (lmap (lru (fst (snd (translateMany hash prov P texts))))) k
         = lookup ?c ?d k)"
    if r: "distinct (lru_keys ?c) \<and>
      \<not> size_gt (card (set (lru_keys ?c) \<union> set ?ks)) (limit ?c) \<and>
      (\<forall>k\<in>set ?ks. truthy (lookup ?c ?d k))"
  proof -
    have h: "miss = [] \<and> out = map (lookup ?c ?d) ?ks \<and>
        (\<forall>k. map_of (lmap c2) k =
           (if k \<in> set ?ks then lookup ?c ?d k else map_of (lmap ?c) k))"
      using r by (intro lookup_loop_all_hits [OF _ _ _ l]) (simp_all add: lru_keys_def)
    then have "?H" using iff by simp
    then show ?thesis using h tm by (auto simp: jsmap_get_def)
  qed
  have D: "?H \<longleftrightarrow> fst (snd (lookup_loop ?c ?d 0 ?ks)) = []" using iff l by simp
  show ?thesis using A B C D by blast
qed

theorem translateMany_all_hits_witness:
  "keys_of id ((plugin0 (Num 2))\<lparr>lru := \<lparr>limit = Num 2,
          lmap = [(''azure|auto|ko|a'', ''A''), (''azure|auto|ko|b'', ''B'')]\<rparr>,
        diskCache := \<lparr>dmap = [''azure|auto|ko|a'' \<mapsto> ''A'', ''azure|auto|ko|b'' \<mapsto> ''B'',
          ''azure|auto|ko|c'' \<mapsto> ''C'', ''azure|auto|ko|d'' \<mapsto> ''D''],
          dirty = False, path = ''p''\<rparr>\<rparr>) [''c'', ''d'']
     = [''azure|auto|ko|c'', ''azure|auto|ko|d''] \<and>
   truthy ([''azure|auto|ko|a'' \<mapsto> ''A'', ''azure|auto|ko|b'' \<mapsto> ''B'',
          ''azure|auto|ko|c'' \<mapsto> ''C'', ''azure|auto|ko|d'' \<mapsto> ''D''] ''azure|auto|ko|c'') \<and>
   truthy ([''azure|auto|ko|a'' \<mapsto> ''A'', ''azure|auto|ko|b'' \<mapsto> ''B'',
          ''azure|auto|ko|c'' \<mapsto> ''C'', ''azure|auto|ko|d'' \<mapsto> ''D''] ''azure|auto|ko|d'') \<and>
   translateMany id (Some (\<lambda>ts s t. Inr (map Some ts)))
     ((plugin0 (Num 2))\<lparr>lru := \<lparr>limit = Num 2,
          lmap = [(''azure|auto|ko|a'', ''A''), (''azure|auto|ko|b'', ''B'')]\<rparr>,
        diskCache := \<lparr>dmap = [''azure|auto|ko|a'' \<mapsto> ''A'', ''azure|auto|ko|b'' \<mapsto> ''B'',
          ''azure|auto|ko|c'' \<mapsto> ''C'', ''azure|auto|ko|d'' \<mapsto> ''D''],
          dirty = False, path = ''p''\<rparr>\<rparr>) [''c'', ''d'']
   = ([Some ''C'', Some ''D''],
      (plugin0 (Num 2))\<lparr>lru := \<lparr>limit = Num 2,
          lmap = [(''azure|auto|ko|c'', ''C''), (''azure|auto|ko|d'', ''D'')]\<rparr>,
        diskCache := \<lparr>dmap = [''azure|auto|ko|a'' \<mapsto> ''A'', ''azure|auto|ko|b'' \<mapsto> ''B'',
          ''azure|auto|ko|c'' \<mapsto> ''C'', ''azure|auto|ko|d'' \<mapsto> ''D''],
          dirty = False, path = ''p''\<rparr>\<rparr>, []) \<and>
   distinct (lru_keys \<lparr>limit = Num 5000, lmap = [(''azure|auto|ko|Hello'', ''H'')]\<rparr>) \<and>
   fst (translateMany id None
     ((plugin0 (Num 5000))\<lparr>lru := \<lparr>limit = Num 5000, lmap = [(''azure|auto|ko|Hello'', ''H'')]\<rparr>,
        diskCache := \<lparr>dmap = [''azure|auto|ko|World'' \<mapsto> ''W''], dirty = False, path = ''p''\<rparr>\<rparr>)
     [''Hello'', ''World'']) = [Some ''H'', Some ''W''] \<and>
   snd (snd (translateMany id None
     ((plugin0 (Num 5000))\<lparr>lru := \<lparr>limit = Num 5000, lmap = [(''azure|auto|ko|Hello'', ''H'')]\<rparr>,
        diskCache := \<lparr>dmap = [''azure|auto|ko|World'' \<mapsto> ''W''], dirty = False, path = ''p''\<rparr>\<rparr>)
     [''Hello'', ''World''])) = []"
proof -
  let ?f = "\<lambda>(ts :: string list) (s :: string) (t :: string).
      (Inr (map Some ts) :: error + string option list)"
  let ?dm = "[''azure|auto|ko|a'' \<mapsto> ''A'', ''azure|auto|ko|b'' \<mapsto> ''B'',
          ''azure|auto|ko|c'' \<mapsto> ''C'', ''azure|auto|ko|d'' \<mapsto> ''D'']"
  let ?Q = "(plugin0 (Num 2))\<lparr>lru := \<lparr>limit = Num 2,
          lmap = [(''azure|auto|ko|a'', ''A''), (''azure|auto|ko|b'', ''B'')]\<rparr>,
        diskCache := \<lparr>dmap = ?dm, dirty = False, path = ''p''\<rparr>\<rparr>"
  have kq: "keys_of id ?Q [''c'', ''d''] = [''azure|auto|ko|c'', ''azure|auto|ko|d'']"
    by (simp add: eval_defs)
  have dq: "\<forall>k\<in>set (keys_of id ?Q [''c'', ''d'']). truthy (?dm k)"
    unfolding kq by simp
  then have dq': "\<forall>k\<in>set (keys_of id ?Q [''c'', ''d'']). truthy (dmap (diskCache ?Q) k)"
    by simp
  note TQ = translateMany_all_hits [where hash = id and P = ?Q and texts = "[''c'', ''d'']"
      and prov = "Some ?f"]
  have HQ: "\<forall>n<length (keys_of id ?Q [''c'', ''d'']).
      truthy (found_at (lru ?Q) (diskCache ?Q) (keys_of id ?Q [''c'', ''d'']) n)"
    using TQ [THEN conjunct2, THEN conjunct2, THEN conjunct1] dq' by blast
  have cq: "snd (snd (translateMany id (Some ?f) ?Q [''c'', ''d''])) = []"
    using TQ [THEN conjunct1] HQ by blast
  have eq: "translateMany id (Some ?f) ?Q [''c'', ''d'']
      = ([Some ''C'', Some ''D''],
         (plugin0 (Num 2))\<lparr>lru := \<lparr>limit = Num 2,
             lmap = [(''azure|auto|ko|c'', ''C''), (''azure|auto|ko|d'', ''D'')]\<rparr>,
           diskCache := \<lparr>dmap = ?dm, dirty = False, path = ''p''\<rparr>\<rparr>, [])"
    using cq by (simp add: eval_defs)
  let ?c = "\<lparr>limit = Num 5000, lmap = [(''azure|auto|ko|Hello'', ''H'')]\<rparr>"
  let ?d = "\<lparr>dmap = [''azure|auto|ko|World'' \<mapsto> ''W''], dirty = False, path = ''p''\<rparr>"
  let ?P = "(plugin0 (Num 5000))\<lparr>lru := ?c, diskCache := ?d\<rparr>"
  have k: "keys_of id ?P [''Hello'', ''World''] = [''azure|auto|ko|Hello'', ''azure|auto|ko|World'']"
    by (simp add: eval_defs)
  have d: "distinct (lru_keys (lru ?P))" by (simp add: lru_keys_def)
  have "card (set (lru_keys (lru ?P)) \<union> set (keys_of id ?P [''Hello'', ''World''])) \<le> 3"
    unfolding k by (simp add: lru_keys_def card_insert_if)
  then have r: "\<not> size_gt (card (set (lru_keys (lru ?P)) \<union> set (keys_of id ?P [''Hello'', ''World''])))
      (limit (lru ?P))"
    by simp
  have t: "\<forall>k\<in>set (keys_of id ?P [''Hello'', ''World'']). truthy (lookup (lru ?P) (diskCache ?P) k)"
    unfolding k by (simp add: lookup_eq jsmap_get_def)
  have v: "map (lookup (lru ?P) (diskCache ?P)) (keys_of id ?P [''Hello'', ''World''])
      = [Some ''H'', Some ''W'']"
    unfolding k by (simp add: lookup_eq jsmap_get_def)
  note TP = translateMany_all_hits [where hash = id and P = ?P
      and texts = "[''Hello'', ''World'']" and prov = None]
  have CP: "(\<forall>n<length (keys_of id ?P [''Hello'', ''World'']).
        truthy (found_at (lru ?P) (diskCache ?P) (keys_of id ?P [''Hello'', ''World'']) n)) \<and>
      fst (translateMany id None ?P [''Hello'', ''World''])
        = map (lookup (lru ?P) (diskCache ?P)) (keys_of id ?P [''Hello'', ''World''])"
    using TP [THEN conjunct2, THEN conjunct2, THEN conjunct2] d r t by blast
  then have o: "fst (translateMany id None ?P [''Hello'', ''World'']) = [Some ''H'', Some ''W'']"
    using v by simp
  have cp: "snd (snd (translateMany id None ?P [''Hello'', ''World''])) = []"
    using TP [THEN conjunct1] CP by blast
  have d0: "distinct (lru_keys ?c)" using d by simp
  have t1: "truthy (?dm ''azure|auto|ko|c'')" and t2: "truthy (?dm ''azure|auto|ko|d'')"
    by simp_all
  from kq t1 t2 eq d0 o cp show ?thesis by blast
qed

section \<open>\<open>translateMany\<close>: storing what the provider returned\<close>

lemma store_loop_writes:
  "store_loop t keys j ps (out, c, d) =
     (fold (\<lambda>w a. a[fst w := Some (snd (snd w))]) (store_writes t keys j ps) out,
      LRU_sets c (map snd (store_writes t keys j ps)),
      fold (\<lambda>w d. DiskCache_set d (fst (snd w)) (snd (snd w))) (store_writes t keys j ps) d)"
proof (induction ps arbitrary: j out c d)
  case Nil
  then show ?case by simp
next
  case (Cons p ps)
  obtain idx src where p: "p = (idx, src)" by (cases p)
  show ?case unfolding p by (simp add: Let_def Cons.IH)
qed

lemma length_store_writes [simp]: "length (store_writes t keys j ps) = length ps"
  by (induction ps arbitrary: j) auto

lemma map_fst_store_writes: "map fst (store_writes t keys j ps) = map fst ps"
  by (induction ps arbitrary: j) auto

lemma store_writes_nth:
  "n < length ps \<Longrightarrow>
   store_writes t keys j ps ! n
     = (fst (ps ! n), keys ! fst (ps ! n), js_coalesce (js_nth t (j + n)) (snd (ps ! n)))"
proof (induction ps arbitrary: j n)
  case Nil
  then show ?case by simp
next
  case (Cons p ps)
  obtain idx src where p: "p = (idx, src)" by (cases p)
  show ?case
  proof (cases n)
    case 0
    then show ?thesis by (simp add: p)
  next
    case (Suc n')
    then show ?thesis using Cons.IH [of n' "Suc j"] Cons.prems by (simp add: p)
  qed
qed

lemma length_fold_update [simp]:
  "length (fold (\<lambda>w a. a[fst w := Some (snd (snd w))]) W out) = length out"
  by (induction W arbitrary: out) auto

lemma fold_update_other:
  "i \<notin> fst ` set W \<Longrightarrow> fold (\<lambda>w a. a[fst w := Some (snd (snd w))]) W out ! i = out ! i"
  by (induction W arbitrary: out) auto

lemma fold_update_nth:
  "distinct (map fst W) \<Longrightarrow> n < length W \<Longrightarrow> fst (W ! n) < length out \<Longrightarrow>
   fold (\<lambda>w a. a[fst w := Some (snd (snd w))]) W out ! fst (W ! n) = Some (snd (snd (W ! n)))"
proof (induction W arbitrary: out n)
  case Nil
  then show ?case by simp
next
  case (Cons w W)
  show ?case
  proof (cases n)
    case 0
    have "fst w \<notin> fst ` set W" using Cons.prems(1) by simp
    then show ?thesis using 0 Cons.prems(3) by (simp add: fold_update_other)
  next
    case (Suc n')
    then show ?thesis using Cons.IH [of n' "out[fst w := Some (snd (snd w))]"] Cons.prems
      by simp
  qed
qed

lemma fold_set_dirty:
  "W \<noteq> [] \<Longrightarrow> dirty (fold (\<lambda>w d. DiskCache_set d (fst (snd w)) (snd (snd w))) W d)"
proof (induction W arbitrary: d rule: rev_induct)
  case Nil
  then show ?case by simp
next
  case (snoc w W)
  then show ?case by (simp add: DiskCache_set_def)
qed

lemma fold_set_path:
  "path (fold (\<lambda>w d. DiskCache_set d (fst (snd w)) (snd (snd w))) W d) = path d"
  by (induction W arbitrary: d) (auto simp: DiskCache_set_def)

lemma fold_set_other:
  "k \<notin> (\<lambda>w. fst (snd w)) ` set W \<Longrightarrow>
   dmap (fold (\<lambda>w d. DiskCache_set d (fst (snd w)) (snd (snd w))) W d) k = dmap d k"
  by (induction W arbitrary: d) (auto simp: DiskCache_set_def)

text \<open>A value written to the persistent cache stays unless a later write has its key.\<close>

lemma fold_set_last:
  "n < length W \<Longrightarrow> \<forall>m<length W. n < m \<longrightarrow> fst (snd (W ! m)) \<noteq> fst (snd (W ! n)) \<Longrightarrow>
   dmap (fold (\<lambda>w d. DiskCache_set d (fst (snd w)) (snd (snd w))) W d) (fst (snd (W ! n)))
     = Some (snd (snd (W ! n)))"
proof (induction W arbitrary: d n)
  case Nil
  then show ?case by simp
next
  case (Cons w W)
  show ?case
  proof (cases n)
    case 0
    have "fst (snd w) \<notin> (\<lambda>w. fst (snd w)) ` set W"
    proof
      assume "fst (snd w) \<in> (\<lambda>w. fst (snd w)) ` set W"
      then obtain m where m: "m < length W" "fst (snd (W ! m)) = fst (snd w)"
        by (auto simp: in_set_conv_nth)
      then show False using Cons.prems(2) [rule_format, of "Suc m"] 0 by simp
    qed
    then have "dmap (fold (\<lambda>w d. DiskCache_set d (fst (snd w)) (snd (snd w))) W
          (DiskCache_set d (fst (snd w)) (snd (snd w)))) (fst (snd w))
        = dmap (DiskCache_set d (fst (snd w)) (snd (snd w))) (fst (snd w))"
      by (rule fold_set_other)
    then show ?thesis using 0 by (simp add: DiskCache_set_def)
  next
    case (Suc n')
    have "\<forall>m<length W. n' < m \<longrightarrow> fst (snd (W ! m)) \<noteq> fst (snd (W ! n'))"
    proof (intro allI impI)
      fix m assume "m < length W" "n' < m"
      then show "fst (snd (W ! m)) \<noteq> fst (snd (W ! n'))"
        using Cons.prems(2) [rule_format, of "Suc m"] Suc by simp
    qed
    then show ?thesis using Cons.IH [of n'] Cons.prems(1) Suc by simp
  qed
qed

text \<open>
  C4, as stated, gives the output slot the source text when the provider's result at
  that position is the empty string. The code falls back with \<open>??\<close>, which keeps the
  empty string: the slot receives the empty string.
\<close>

theorem empty_result_kept:
  "fst (translateMany id (Some (\<lambda>ts s t. Inr [Some []])) (plugin0 (Num 5000)) [''Hello''])
     = [Some []]"
  by (simp add: eval_defs)

text \<open>
  C4, amended. Let the lookup loop leave the miss indices \<open>missIdx\<close> and the memory cache
  \<open>c1\<close>, let the plugin not be offline and the provider return the list \<open>translated\<close>.
  For the \<open>n\<close>-th miss the value stored is \<open>translated[n]\<close> unless that is absent
  (\<open>null\<close>, \<open>undefined\<close> or beyond the end of the list), and the source text when it is
  absent; the empty string is a value like any other. This value is written to the
  output slot of the miss, and, in the order of the misses, \<open>set\<close> into the memory cache
  and into the persistent cache under the fingerprint of the text: the source text of an
  absent result is cached as well. Afterwards the persistent cache is dirty, keeps its
  path and its entries under other keys, and maps the fingerprint of every miss to the
  value stored for it, unless a later miss has the same fingerprint; and a memory cache
  of capacity at least one maps the fingerprint of the last miss to its value.
\<close>

theorem translateMany_stores_results:
  assumes l: "lookup_loop (lru P) (diskCache P) 0 (keys_of sha1 P texts) = (out0, missIdx, c1)"
    and ne: "missIdx \<noteq> []"
    and on: "\<not> offlineOnly P"
    and f: "f (map (\<lambda>i. texts ! i) missIdx) (src_of P) (tgt_of P) = Inr translated"
    and W: "W = store_writes translated (keys_of sha1 P texts) 0
                  (zip missIdx (map (\<lambda>i. texts ! i) missIdx))"
  shows "length W = length missIdx \<and>
         (\<forall>n<length missIdx.
            W ! n = (missIdx ! n, keys_of sha1 P texts ! (missIdx ! n),
                     js_coalesce (js_nth translated n) (texts ! (missIdx ! n))) \<and>
            fst (translateMany sha1 (Some f) P texts) ! (missIdx ! n)
              = Some (js_coalesce (js_nth translated n) (texts ! (missIdx ! n)))) \<and>
         lru (fst (snd (translateMany sha1 (Some f) P texts))) = LRU_sets c1 (map snd W) \<and>
         diskCache (fst (snd (translateMany sha1 (Some f) P texts)))
           = fold (\<lambda>w d. DiskCache_set d (fst (snd w)) (snd (snd w))) W (diskCache P) \<and>
         dirty (diskCache (fst (snd (translateMany sha1 (Some f) P texts)))) \<and>
         path (diskCache (fst (snd (translateMany sha1 (Some f) P texts)))) = path (diskCache P) \<and>
         (\<forall>k. k \<notin> (\<lambda>i. keys_of sha1 P texts ! i) ` set missIdx \<longrightarrow>
            dmap (diskCache (fst (snd (translateMany sha1 (Some f) P texts)))) k
              = dmap (diskCache P) k) \<and>
         (\<forall>n<length missIdx.
            (\<forall>m<length missIdx. n < m \<longrightarrow>
               keys_of sha1 P texts ! (missIdx ! m) \<noteq> keys_of sha1 P texts ! (missIdx ! n)) \<longrightarrow>
            dmap (diskCache (fst (snd (translateMany sha1 (Some f) P texts))))
                (keys_of sha1 P texts ! (missIdx ! n))
              = Some (js_coalesce (js_nth translated n) (texts ! (missIdx ! n)))) \<and>
         (\<not> size_gt 1 (limit (lru P)) \<longrightarrow>
            jsmap_get (lmap (lru (fst (snd (translateMany sha1 (Some f) P texts)))))
                (keys_of sha1 P texts ! last missIdx)
              = Some (js_coalesce (js_nth translated (length missIdx - 1)) (texts ! last missIdx)))"
proof -
  let ?ps = "zip missIdx (map (\<lambda>i. texts ! i) missIdx)"
  let ?F = "\<lambda>w d. DiskCache_set d (fst (snd w)) (snd (snd w))"
  let ?ks = "keys_of sha1 P texts"
  let ?v = "\<lambda>n. js_coalesce (js_nth translated n) (texts ! (missIdx ! n))"
  have tm: "translateMany sha1 (Some f) P texts =
      (fold (\<lambda>w a. a[fst w := Some (snd (snd w))]) W out0,
       P\<lparr>lru := LRU_sets c1 (map snd W), diskCache := fold ?F W (diskCache P)\<rparr>,
       [ProviderCall (map (\<lambda>i. texts ! i) missIdx) (src_of P) (tgt_of P)])"
    using translateMany_unfold [OF l, of "Some f"] ne on f
    by (simp add: store_loop_writes W)
  have len: "length W = length missIdx" by (simp add: W)
  have nth: "W ! n = (missIdx ! n, ?ks ! (missIdx ! n), ?v n)" if "n < length missIdx" for n
    using that store_writes_nth [of n ?ps translated ?ks 0] by (simp add: W)
  have dist: "distinct (map fst W)"
    using lookup_loop_sorted [OF l] by (simp add: W map_fst_store_writes strict_sorted_iff)
  have lo: "length out0 = length texts"
    using lookup_loop_length [OF l] by (simp add: keys_of_def)
  have slot: "fst (translateMany sha1 (Some f) P texts) ! (missIdx ! n) = Some (?v n)"
    if n: "n < length missIdx" for n
  proof -
    have "missIdx ! n < length out0"
      using lookup_loop_miss_iff [OF l, of "missIdx ! n"] n lo by (simp add: keys_of_def)
    then show ?thesis
      using fold_update_nth [OF dist, of n out0] n len nth [OF n] by (simp add: tm)
  qed
  have Wne: "W \<noteq> []" using len ne by auto
  have dirt: "dirty (fold ?F W (diskCache P))" by (rule fold_set_dirty [OF Wne])
  have pth: "path (fold ?F W (diskCache P)) = path (diskCache P)" by (rule fold_set_path)
  have wkeys: "(\<lambda>w. fst (snd w)) ` set W = (\<lambda>i. ?ks ! i) ` set missIdx"
  proof (intro set_eqI iffI)
    fix k assume "k \<in> (\<lambda>w. fst (snd w)) ` set W"
    then obtain n where "n < length W" "k = fst (snd (W ! n))"
      by (auto simp: in_set_conv_nth)
    then have "n < length missIdx" "k = ?ks ! (missIdx ! n)" using len nth [of n] by simp_all
    then show "k \<in> (\<lambda>i. ?ks ! i) ` set missIdx" by auto
  next
    fix k assume "k \<in> (\<lambda>i. ?ks ! i) ` set missIdx"
    then obtain n where n: "n < length missIdx" "k = ?ks ! (missIdx ! n)"
      by (auto simp: in_set_conv_nth)
    have "W ! n \<in> set W" using n(1) len by (intro nth_mem) simp
    moreover have "k = fst (snd (W ! n))" using n nth [of n] by simp
    ultimately show "k \<in> (\<lambda>w. fst (snd w)) ` set W" by (rule_tac x = "W ! n" in image_eqI) simp_all
  qed
  have other: "dmap (fold ?F W (diskCache P)) k = dmap (diskCache P) k"
    if "k \<notin> (\<lambda>i. ?ks ! i) ` set missIdx" for k
    using that wkeys by (intro fold_set_other) simp
  have stored: "dmap (fold ?F W (diskCache P)) (?ks ! (missIdx ! n)) = Some (?v n)"
    if n: "n < length missIdx"
      and later: "\<forall>m<length missIdx. n < m \<longrightarrow> ?ks ! (missIdx ! m) \<noteq> ?ks ! (missIdx ! n)" for n
  proof -
    have "\<forall>m<length W. n < m \<longrightarrow> fst (snd (W ! m)) \<noteq> fst (snd (W ! n))"
      using later nth n len by auto
    then show ?thesis
      using fold_set_last [of n W "diskCache P"] n len nth [OF n] by simp
  qed
  have mem: "jsmap_get (lmap (LRU_sets c1 (map snd W))) (?ks ! last missIdx)
      = Some (?v (length missIdx - 1))" if cap: "\<not> size_gt 1 (limit (lru P))"
  proof -
    have c: "\<not> size_gt 1 (limit c1)" using cap lookup_loop_limit [OF l] by simp
    have lastW: "last W = (last missIdx, ?ks ! last missIdx, ?v (length missIdx - 1))"
      using nth [of "length missIdx - 1"] ne len Wne by (simp add: last_conv_nth)
    have "map snd W \<noteq> []" using Wne by simp
    then show ?thesis
      using LRU_sets_last [of "map snd W" c1, OF _ c] lastW Wne by (simp add: last_map)
  qed
  show ?thesis using len nth slot dirt pth other stored mem
    by (simp add: tm last_conv_nth [OF ne])
qed

theorem translateMany_stores_results_witness:
  "lookup_loop (lru (plugin0 (Num 5000))) (diskCache (plugin0 (Num 5000))) 0
     (keys_of id (plugin0 (Num 5000)) [''Hello'', ''World''])
     = ([None, None], [0, 1], lru (plugin0 (Num 5000))) \<and>
   fst (translateMany id (Some (\<lambda>ts s t. Inr [Some [], None])) (plugin0 (Num 5000))
      [''Hello'', ''World'']) ! 0 = Some [] \<and>
   fst (translateMany id (Some (\<lambda>ts s t. Inr [Some [], None])) (plugin0 (Num 5000))
      [''Hello'', ''World'']) ! 1 = Some ''World'' \<and>
   lru (fst (snd (translateMany id (Some (\<lambda>ts s t. Inr [Some [], None])) (plugin0 (Num 5000))
      [''Hello'', ''World''])))
     = \<lparr>limit = Num 5000,
        lmap = [(''azure|auto|ko|Hello'', []), (''azure|auto|ko|World'', ''World'')]\<rparr> \<and>
   dirty (diskCache (fst (snd (translateMany id (Some (\<lambda>ts s t. Inr [Some [], None]))
      (plugin0 (Num 5000)) [''Hello'', ''World''])))) \<and>
   dmap (diskCache (fst (snd (translateMany id (Some (\<lambda>ts s t. Inr [Some [], None]))
      (plugin0 (Num 5000)) [''Hello'', ''World''])))) ''azure|auto|ko|Hello'' = Some [] \<and>
   dmap (diskCache (fst (snd (translateMany id (Some (\<lambda>ts s t. Inr [Some [], None]))
      (plugin0 (Num 5000)) [''Hello'', ''World''])))) ''azure|auto|ko|World'' = Some ''World'' \<and>
   jsmap_get (lmap (lru (fst (snd (translateMany id (Some (\<lambda>ts s t. Inr [Some [], None]))
      (plugin0 (Num 5000)) [''Hello'', ''World''])))))  ''azure|auto|ko|World'' = Some ''World''"
proof -
  let ?P = "plugin0 (Num 5000)"
  let ?f = "\<lambda>(ts :: string list) (s :: string) (t :: string).
      (Inr [Some [], None] :: error + string option list)"
  let ?T = "translateMany id (Some ?f) ?P [''Hello'', ''World'']"
  have k: "keys_of id ?P [''Hello'', ''World''] = [''azure|auto|ko|Hello'', ''azure|auto|ko|World'']"
    by (simp add: eval_defs)
  have h: "lookup_loop (lru ?P) (diskCache ?P) 0 (keys_of id ?P [''Hello'', ''World''])
     = ([None, None], [0, 1], lru ?P)"
    by (simp add: eval_defs)
  have ne: "[0, 1 :: nat] \<noteq> []" by simp
  have on: "\<not> offlineOnly ?P" by (simp add: plugin0_def)
  have f: "?f (map (\<lambda>i. [''Hello'', ''World''] ! i) [0, 1]) (src_of ?P) (tgt_of ?P)
      = Inr [Some [], None]" by simp
  have cap: "\<not> size_gt 1 (limit (lru ?P))" by (simp add: plugin0_def)
  note T = translateMany_stores_results [OF h ne on f refl]
  have s0: "fst ?T ! 0 = Some []"
    using T [THEN conjunct2, THEN conjunct1, rule_format, of 0] by simp
  have s1: "fst ?T ! 1 = Some ''World''"
    using T [THEN conjunct2, THEN conjunct1, rule_format, of 1] by simp
  have c: "lru (fst (snd ?T))
     = \<lparr>limit = Num 5000,
        lmap = [(''azure|auto|ko|Hello'', []), (''azure|auto|ko|World'', ''World'')]\<rparr>"
    using T [THEN conjunct2, THEN conjunct2, THEN conjunct1] unfolding k
    by (simp add: plugin0_def LRU_new_def LRU_set_def jsmap_has_def jsmap_set_def
        jsmap_delete_def Let_def)
  note R = T [THEN conjunct2, THEN conjunct2, THEN conjunct2, THEN conjunct2]
  have dr: "dirty (diskCache (fst (snd ?T)))" by (rule R [THEN conjunct1])
  note S = R [THEN conjunct2, THEN conjunct2, THEN conjunct2, THEN conjunct1]
  have d0: "dmap (diskCache (fst (snd ?T))) ''azure|auto|ko|Hello'' = Some []"
    using S [rule_format, of 0] unfolding k by (simp add: less_Suc_eq)
  have d1: "dmap (diskCache (fst (snd ?T))) ''azure|auto|ko|World'' = Some ''World''"
    using S [rule_format, of 1] unfolding k by (simp add: less_Suc_eq)
  have m1: "jsmap_get (lmap (lru (fst (snd ?T)))) ''azure|auto|ko|World'' = Some ''World''"
    using R [THEN conjunct2, THEN conjunct2, THEN conjunct2, THEN conjunct2] cap unfolding k
    by simp
  from h s0 s1 c dr d0 d1 m1 show ?thesis by blast
qed

section \<open>The dispatcher: pacing\<close>

lemma pace_append: "pace (xs @ ys) = pace xs @ pace ys"
  by (induction xs rule: pace.induct) auto

lemma pace_Rejected: "pace (map (\<lambda>t. Rejected (tid t) e) tasks) = []"
  by (induction tasks) auto

lemma pace_resolve_each: "pace (fst (resolve_each ds ts)) = []"
  by (induction ds ts rule: resolve_each.induct) (auto split: prod.splits)

lemma pace_settle_batch: "pace (settle_batch res tasks) = []"
proof (cases res)
  case (Inl e)
  then show ?thesis by (simp add: settle_batch_def reject_all_def pace_Rejected)
next
  case (Inr tr)
  obtain evs thrown where r: "resolve_each tr tasks = (evs, thrown)"
    by (cases "resolve_each tr tasks") auto
  have "pace evs = []" using pace_resolve_each [of tr tasks] r by simp
  then show ?thesis
    using Inr r by (simp add: settle_batch_def reject_all_def pace_append pace_Rejected)
qed

lemma Slept_Rejected: "Slept ms \<notin> set (map (\<lambda>t. Rejected (tid t) e) tasks)"
  by auto

lemma Slept_resolve_each: "Slept ms \<notin> set (fst (resolve_each ds ts))"
  by (induction ds ts rule: resolve_each.induct) (auto split: prod.splits)

lemma Slept_settle_batch: "Slept ms \<notin> set (settle_batch res tasks)"
proof (cases res)
  case (Inl e)
  then show ?thesis by (auto simp: settle_batch_def reject_all_def)
next
  case (Inr tr)
  obtain evs thrown where r: "resolve_each tr tasks = (evs, thrown)"
    by (cases "resolve_each tr tasks") auto
  have "Slept ms \<notin> set evs" using Slept_resolve_each [of ms tr tasks] r by simp
  then show ?thesis using Inr r by (auto simp: settle_batch_def reject_all_def)
qed

lemma run_loop_Suc:
  "q \<noteq> [] \<Longrightarrow> call st (map task_text (take (splice_count bs (length q)) q)) = (res, st1) \<Longrightarrow>
   run_loop call iv bs arr (Suc n) i st q =
     (case run_loop call iv bs arr n (Suc i) st1 (drop (splice_count bs (length q)) q @ arr i) of
        None \<Rightarrow> None
      | Some (st2, q', evs) \<Rightarrow>
          Some (st2, q',
                Called (map task_text (take (splice_count bs (length q)) q))
                  # settle_batch res (take (splice_count bs (length q)) q) @ Slept iv # evs))"
  by (simp add: Let_def)

lemma run_loop_trace:
  "run_loop call iv bs arr n i st q = Some (st', q', evs) \<Longrightarrow>
   q' = [] \<and> (\<exists>k. pace evs = concat (replicate k [True, False])) \<and>
   (\<forall>ms. Slept ms \<in> set evs \<longrightarrow> ms = iv) \<and>
   (q \<noteq> [] \<longrightarrow> evs \<noteq> [] \<and> last evs = Slept iv)"
proof (induction n arbitrary: i st q st' q' evs)
  case 0
  then have "q = [] \<and> q' = [] \<and> evs = []" by (auto split: if_splits)
  then show ?case by (auto intro: exI [of _ 0])
next
  case (Suc n)
  show ?case
  proof (cases "q = []")
    case True
    then have "q' = [] \<and> evs = []" using Suc.prems by auto
    then show ?thesis using True by (auto intro: exI [of _ 0])
  next
    case False
    let ?tasks = "take (splice_count bs (length q)) q"
    obtain res st1 where c: "call st (map task_text ?tasks) = (res, st1)"
      by (cases "call st (map task_text ?tasks)") auto
    obtain evs' where r: "run_loop call iv bs arr n (Suc i) st1
        (drop (splice_count bs (length q)) q @ arr i) = Some (st', q', evs')"
      and e: "evs = Called (map task_text ?tasks) # settle_batch res ?tasks @ Slept iv # evs'"
      using Suc.prems
        run_loop_Suc [where call = call and st = st and q = q and bs = bs and iv = iv
          and arr = arr and n = n and i = i, OF False c]
      by (auto simp del: run_loop.simps split: option.splits)
    have IH: "q' = [] \<and> (\<exists>k. pace evs' = concat (replicate k [True, False])) \<and>
        (\<forall>ms. Slept ms \<in> set evs' \<longrightarrow> ms = iv) \<and>
        (drop (splice_count bs (length q)) q @ arr i \<noteq> [] \<longrightarrow> evs' \<noteq> [] \<and> last evs' = Slept iv)"
      by (rule Suc.IH [OF r])
    then obtain k where k: "pace evs' = concat (replicate k [True, False])" by blast
    have p: "pace evs = concat (replicate (Suc k) [True, False])"
      by (simp add: e pace_append pace_settle_batch k)
    have s: "\<forall>ms. Slept ms \<in> set evs \<longrightarrow> ms = iv"
      using IH Slept_settle_batch [of _ res ?tasks] by (auto simp: e)
    have la: "evs \<noteq> [] \<and> last evs = Slept iv"
    proof (cases "evs' = []")
      case True
      then show ?thesis by (simp add: e)
    next
      case False
      then have "drop (splice_count bs (length q)) q @ arr i \<noteq> []"
        using r by (cases n) (auto split: if_splits)
      then show ?thesis using IH False by (simp add: e)
    qed
    show ?thesis using IH p s la by blast
  qed
qed

lemma run_loop_total:
  "1 \<le> b \<Longrightarrow> length q \<le> n \<Longrightarrow> \<exists>r. run_loop call iv (Num b) (\<lambda>i. []) n i st q = Some r"
proof (induction n arbitrary: i st q)
  case 0
  then show ?case by simp
next
  case (Suc n)
  show ?case
  proof (cases "q = []")
    case True
    then show ?thesis by simp
  next
    case False
    let ?c = "splice_count (Num b) (length q)"
    obtain res st1 where c: "call st (map task_text (take ?c q)) = (res, st1)"
      by (cases "call st (map task_text (take ?c q))") auto
    have "(1::int) \<le> \<lfloor>b\<rfloor>" using Suc.prems(1) by (simp add: le_floor_iff)
    then have "1 \<le> nat \<lfloor>b\<rfloor>" by linarith
    then have "1 \<le> ?c" using False by (cases q) auto
    then have "length (drop ?c q @ []) \<le> n" using Suc.prems(2) False by (cases q) auto
    then obtain r where "run_loop call iv (Num b) (\<lambda>i. []) n (Suc i) st1 (drop ?c q @ []) = Some r"
      using Suc.IH [OF Suc.prems(1)] by blast
    then show ?thesis
      using run_loop_Suc [where call = call and st = st and q = q and bs = "Num b"
          and iv = iv and arr = "\<lambda>i. []" and n = n and i = i, OF False c]
      by (cases r) (auto simp del: run_loop.simps)
  qed
qed

lemma interval_Num:
  "interval fdiv (Num r) = Num (max 250 (of_int \<lfloor>fdiv 1000 (max 1 r)\<rfloor>))"
  by (simp add: interval_def max_def)

text \<open>
  C9, as stated, makes the wait \<open>max(250, 1000 / rps)\<close> milliseconds. The code computes
  \<open>Math.max(250, Math.floor(1000 / Math.max(1, rps)))\<close>: a rate below one request per
  second is raised to one before the division. For a rate of one half the divisor is
  one, the quotient is exactly 1000 and the wait is 1000 ms, where the stated formula
  gives \<open>1000 / 0.5\<close>, that is 2000 ms.
\<close>

theorem interval_clamps_rate:
  "interval exact_div (Num (1 / 2)) = Num 1000 \<and>
   Num (max 250 (exact_div 1000 (1 / 2))) = Num 2000"
  by (simp add: interval_Num exact_div_def)

text \<open>
  C9, amended. A run that starts idle and returns has called \<open>plugin.translateMany\<close> and
  slept in strict alternation, a sleep after every call whatever the call's outcome and
  whatever is left in the queue, so that a run with a non-empty queue ends with a sleep;
  every sleep lasts \<open>max(250, floor(1000 / max(1, rps)))\<close> milliseconds, the division
  being the platform's rounding division of doubles; and the run ends idle with the
  queue that the loop found empty at the top of an iteration. With a batch size of at
  least one and nothing enqueued meanwhile, the run does return, after at most as many
  iterations as the queue is long.
\<close>

theorem run_sleeps_after_every_call:
  "(run call fdiv rps bs arr fuel D st = Some (D', st', evs) \<and> \<not> running D \<longrightarrow>
      queue D' = [] \<and> \<not> running D' \<and>
      (\<exists>k. pace evs = concat (replicate k [True, False])) \<and>
      (\<forall>ms. Slept ms \<in> set evs \<longrightarrow> ms = interval fdiv rps) \<and>
      (queue D \<noteq> [] \<longrightarrow> evs \<noteq> [] \<and> last evs = Slept (interval fdiv rps))) \<and>
   (1 \<le> b \<and> \<not> running D \<longrightarrow>
      (\<exists>r. run call fdiv rps (Num b) (\<lambda>i. []) (length (queue D)) D st = Some r)) \<and>
   interval fdiv rps = js_max (Num 250) (js_floor (js_div1000 fdiv (js_max (Num 1) rps))) \<and>
   interval fdiv (Num x) = Num (max 250 (of_int \<lfloor>fdiv 1000 (max 1 x)\<rfloor>))"
proof (intro conjI impI)
  assume a: "run call fdiv rps bs arr fuel D st = Some (D', st', evs) \<and> \<not> running D"
  then obtain q' where
    r: "run_loop call (interval fdiv rps) bs arr fuel 0 st (queue D) = Some (st', q', evs)"
    and D': "D' = D\<lparr>queue := q', running := False\<rparr>"
    by (auto simp: run_def Let_def split: option.splits)
  note t = run_loop_trace [OF r]
  show "queue D' = []" using t D' by simp
  show "\<not> running D'" using D' by simp
  show "\<exists>k. pace evs = concat (replicate k [True, False])" using t by blast
  show "\<forall>ms. Slept ms \<in> set evs \<longrightarrow> ms = interval fdiv rps" using t by blast
  show "evs \<noteq> []" if "queue D \<noteq> []" using t that by blast
  show "last evs = Slept (interval fdiv rps)" if "queue D \<noteq> []" using t that by blast
next
  assume a: "1 \<le> b \<and> \<not> running D"
  then obtain r where
    "run_loop call (interval fdiv rps) (Num b) (\<lambda>i. []) (length (queue D)) 0 st (queue D) = Some r"
    using run_loop_total [of b "queue D" "length (queue D)" call "interval fdiv rps" 0 st] by auto
  then show "\<exists>r. run call fdiv rps (Num b) (\<lambda>i. []) (length (queue D)) D st = Some r"
    using a by (cases r) (auto simp: run_def Let_def)
next
  show "interval fdiv rps = js_max (Num 250) (js_floor (js_div1000 fdiv (js_max (Num 1) rps)))"
    by (rule interval_def)
next
  show "interval fdiv (Num x) = Num (max 250 (of_int \<lfloor>fdiv 1000 (max 1 x)\<rfloor>))"
    by (rule interval_Num)
qed

theorem run_sleeps_after_every_call_witness:
  "run (\<lambda>(st :: unit) ts. (Inr (map Some ts), st)) exact_div (Num 4) (Num 2) (\<lambda>i. [])
     (Suc (Suc 0))
     \<lparr>queue = [\<lparr>task_text = ''a'', tid = 0\<rparr>, \<lparr>task_text = ''b'', tid = 1\<rparr>,
               \<lparr>task_text = ''c'', tid = 2\<rparr>], running = False\<rparr> ()
     = Some (\<lparr>queue = [], running = False\<rparr>, (),
         [Called [''a'', ''b''], Resolved 0 (Some ''a''), Resolved 1 (Some ''b''), Slept (Num 250),
          Called [''c''], Resolved 2 (Some ''c''), Slept (Num 250)]) \<and>
   last [Called [''a'', ''b''], Resolved 0 (Some ''a''), Resolved 1 (Some ''b''), Slept (Num 250),
         Called [''c''], Resolved 2 (Some ''c''), Slept (Num 250)]
     = Slept (interval exact_div (Num 4)) \<and>
   (\<exists>r. run (\<lambda>(st :: unit) ts. (Inr (map Some ts), st)) exact_div (Num 4) (Num 2) (\<lambda>i. [])
     (Suc (Suc (Suc 0)))
     \<lparr>queue = [\<lparr>task_text = ''a'', tid = 0\<rparr>, \<lparr>task_text = ''b'', tid = 1\<rparr>,
               \<lparr>task_text = ''c'', tid = 2\<rparr>], running = False\<rparr> () = Some r)"
proof -
  let ?call = "\<lambda>(st :: unit) (ts :: string list). (Inr (map Some ts) :: error + string option list, st)"
  let ?D = "\<lparr>queue = [\<lparr>task_text = ''a'', tid = 0\<rparr>, \<lparr>task_text = ''b'', tid = 1\<rparr>,
               \<lparr>task_text = ''c'', tid = 2\<rparr>], running = False\<rparr>"
  let ?evs = "[Called [''a'', ''b''], Resolved 0 (Some ''a''), Resolved 1 (Some ''b''),
      Slept (Num 250), Called [''c''], Resolved 2 (Some ''c''), Slept (Num 250)]"
  have h: "run ?call exact_div (Num 4) (Num 2) (\<lambda>i. []) (Suc (Suc 0)) ?D ()
      = Some (\<lparr>queue = [], running = False\<rparr>, (), ?evs)"
    by (simp add: run_def interval_Num exact_div_def settle_batch_def Let_def)
  have i: "\<not> running ?D" by simp
  have b: "(1::real) \<le> 2" by simp
  note T = run_sleeps_after_every_call [where call = ?call and fdiv = exact_div
      and rps = "Num 4" and bs = "Num 2"
      and arr = "\<lambda>i. []" and fuel = "Suc (Suc 0)" and D = ?D and st = "()"
      and D' = "\<lparr>queue = [], running = False\<rparr>" and st' = "()" and evs = ?evs and b = 2]
  have l: "last ?evs = Slept (interval exact_div (Num 4))"
    using T [THEN conjunct1] h i by simp
  have t: "\<exists>r. run ?call exact_div (Num 4) (Num 2) (\<lambda>i. []) (Suc (Suc (Suc 0))) ?D () = Some r"
    using T [THEN conjunct2, THEN conjunct1] i b by simp
  from h l t show ?thesis by blast
qed

section \<open>The dispatcher: how a batch is settled\<close>

lemma settlement_Rejected:
  "t \<in> set tasks \<Longrightarrow>
   settlement (tid t) (map (\<lambda>t. Rejected (tid t) e) tasks) = Some (Rejected (tid t) e)"
  by (induction tasks) auto

lemma settlement_reject_all:
  "t \<in> set tasks \<Longrightarrow> settlement (tid t) (reject_all e tasks) = Some (Rejected (tid t) e)"
  by (simp add: reject_all_def settlement_Rejected)

lemma resolve_each_same_length:
  "length tr = length tasks \<Longrightarrow>
   resolve_each tr tasks = (map (\<lambda>(d, t). Resolved (tid t) d) (zip tr tasks), False)"
  by (induction tr tasks rule: resolve_each.induct) auto

lemma settlement_Resolved:
  "length tr = length tasks \<Longrightarrow> distinct (map tid tasks) \<Longrightarrow> j < length tasks \<Longrightarrow>
   settlement (tid (tasks ! j)) (map (\<lambda>(d, t). Resolved (tid t) d) (zip tr tasks))
     = Some (Resolved (tid (tasks ! j)) (tr ! j))"
proof (induction tr tasks arbitrary: j rule: list_induct2)
  case Nil
  then show ?case by simp
next
  case (Cons d tr t tasks)
  show ?case
  proof (cases j)
    case 0
    then show ?thesis by simp
  next
    case (Suc j')
    then have "tasks ! j' \<in> set tasks" using Cons.prems(2) Cons.hyps by simp
    then have "tid (tasks ! j') \<in> tid ` set tasks" by (rule imageI)
    then have "tid (tasks ! j') \<noteq> tid t" using Cons.prems(1) by auto
    then show ?thesis using Suc Cons.IH [of j'] Cons.prems by auto
  qed
qed

lemma length_fill_originals [simp]: "length (fill_originals out ps) = length out"
  by (induction out ps rule: fill_originals.induct) auto

lemma fill_originals_other:
  "i \<notin> fst ` set ps \<Longrightarrow> fill_originals out ps ! i = out ! i"
  by (induction out ps rule: fill_originals.induct) auto

lemma fill_originals_nth:
  "distinct (map fst ps) \<Longrightarrow> (i, s) \<in> set ps \<Longrightarrow> i < length out \<Longrightarrow>
   fill_originals out ps ! i = Some s"
proof (induction out ps rule: fill_originals.induct)
  case (1 out)
  then show ?case by simp
next
  case (2 out idx src ps)
  show ?case
  proof (cases "(i, s) = (idx, src)")
    case True
    then have "i \<notin> fst ` set ps" using "2.prems"(1) by auto
    then show ?thesis using True "2.prems"(3) by (simp add: fill_originals_other)
  next
    case False
    then show ?thesis using 2 by auto
  qed
qed

text \<open>
  C8, as stated, has the requests of a batch rejected when the provider fails. The
  dispatcher calls \<open>plugin.translateMany\<close>, which catches the provider's failure and
  returns the source texts: with a provider that always fails, the request is resolved
  with its own text, and no request is rejected.
\<close>

theorem provider_failure_resolves:
  "run (plugin_call id (Some (\<lambda>ts s t. Inl (Error ''Azure 500'')))) exact_div (Num 4) (Num 20)
     (\<lambda>i. [])
     (Suc 0) \<lparr>queue = [\<lparr>task_text = ''Hello'', tid = 0\<rparr>], running = False\<rparr>
     (plugin0 (Num 5000), [])
   = Some (\<lparr>queue = [], running = False\<rparr>,
       (plugin0 (Num 5000), [ProviderCall [''Hello''] ''auto'' ''ko'']),
       [Called [''Hello''], Resolved 0 (Some ''Hello''), Slept (Num 250)])"
  by (simp add: run_def plugin_call_def interval_Num exact_div_def settle_batch_def eval_defs)

text \<open>
  C8, amended. One iteration of the loop takes the batch off the queue, calls
  \<open>plugin.translateMany\<close> with its texts, settles the batch, sleeps, and goes on with the
  rest of the queue and whatever was enqueued meanwhile: the batch is not put back. When
  the call fails with an error, the error is logged and every request of the batch is
  rejected with that error, none is resolved. When the call returns as many results as
  the batch has requests, request \<open>j\<close> is resolved with result \<open>j\<close>. A failure of the
  provider does not make the call fail: \<open>translateMany\<close> then returns the source text at
  every miss position and the cached value at every other position, so the requests of
  the batch are resolved.
\<close>

theorem batch_settlement:
  assumes q: "q \<noteq> []"
    and tasks: "tasks = take (splice_count bs (length q)) q"
    and c: "call st (map task_text tasks) = (res, sa)"
    and rest: "run_loop call iv bs arr n (Suc i) sa
                 (drop (splice_count bs (length q)) q @ arr i) = Some (sb, q', evs')"
  shows "run_loop call iv bs arr (Suc n) i st q
           = Some (sb, q', Called (map task_text tasks) # settle_batch res tasks @ Slept iv # evs') \<and>
         (\<forall>e. res = Inl e \<longrightarrow>
            settle_batch res tasks = ConsoleError e # map (\<lambda>t. Rejected (tid t) e) tasks \<and>
            (\<forall>t\<in>set tasks. settlement (tid t) (settle_batch res tasks) = Some (Rejected (tid t) e))) \<and>
         (\<forall>tr. res = Inr tr \<and> length tr = length tasks \<and> distinct (map tid tasks) \<longrightarrow>
            (\<forall>j<length tasks.
               settlement (tid (tasks ! j)) (settle_batch res tasks)
                 = Some (Resolved (tid (tasks ! j)) (tr ! j)))) \<and>
         (lookup_loop (lru P) (diskCache P) 0 (keys_of h P texts) = (hits, missIdx, cm) \<and>
          missIdx \<noteq> [] \<and> \<not> offlineOnly P \<and>
          f (map (\<lambda>i. texts ! i) missIdx) (src_of P) (tgt_of P) = Inl e' \<longrightarrow>
            (\<exists>out. fst (plugin_call h (Some f) (P, lg) texts) = Inr out \<and>
               length out = length texts \<and>
               (\<forall>i<length texts.
                  out ! i = (if i \<in> set missIdx then Some (texts ! i) else hits ! i))))"
proof (intro conjI allI impI)
  show "run_loop call iv bs arr (Suc n) i st q
      = Some (sb, q', Called (map task_text tasks) # settle_batch res tasks @ Slept iv # evs')"
  proof -
    have c': "call st (map task_text (take (splice_count bs (length q)) q)) = (res, sa)"
      using c tasks by simp
    show ?thesis
      using run_loop_Suc [where call = call and st = st and q = q and bs = bs and iv = iv
          and arr = arr and n = n and i = i, OF q c'] rest
      unfolding tasks by simp
  qed
next
  fix e assume "res = Inl e"
  then show "settle_batch res tasks = ConsoleError e # map (\<lambda>t. Rejected (tid t) e) tasks"
    by (simp add: settle_batch_def reject_all_def)
next
  fix e assume e: "res = Inl e"
  show "\<forall>t\<in>set tasks. settlement (tid t) (settle_batch res tasks) = Some (Rejected (tid t) e)"
    using e by (simp add: settle_batch_def settlement_reject_all)
next
  fix tr j
  assume a: "res = Inr tr \<and> length tr = length tasks \<and> distinct (map tid tasks)"
    and j: "j < length tasks"
  then show "settlement (tid (tasks ! j)) (settle_batch res tasks)
      = Some (Resolved (tid (tasks ! j)) (tr ! j))"
    by (simp add: settle_batch_def resolve_each_same_length settlement_Resolved)
next
  let ?ps = "zip missIdx (map (\<lambda>i. texts ! i) missIdx)"
  assume a: "lookup_loop (lru P) (diskCache P) 0 (keys_of h P texts) = (hits, missIdx, cm) \<and>
      missIdx \<noteq> [] \<and> \<not> offlineOnly P \<and>
      f (map (\<lambda>i. texts ! i) missIdx) (src_of P) (tgt_of P) = Inl e'"
  then have l: "lookup_loop (lru P) (diskCache P) 0 (keys_of h P texts) = (hits, missIdx, cm)"
    by simp
  have tm: "fst (translateMany h (Some f) P texts) = fill_originals hits ?ps"
    using translateMany_unfold [OF l, of "Some f"] a by simp
  have lo: "length hits = length texts"
    using lookup_loop_length [OF l] by (simp add: keys_of_def)
  have dist: "distinct (map fst ?ps)"
    using lookup_loop_sorted [OF l] by (simp add: strict_sorted_iff)
  have slot: "fill_originals hits ?ps ! i = (if i \<in> set missIdx then Some (texts ! i) else hits ! i)"
    if i: "i < length texts" for i
  proof (cases "i \<in> set missIdx")
    case True
    then have "(i, texts ! i) \<in> set ?ps" by (auto simp: set_zip in_set_conv_nth)
    then show ?thesis using True fill_originals_nth [OF dist, of i "texts ! i" hits] i lo by simp
  next
    case False
    then have "i \<notin> fst ` set ?ps" by (auto dest: set_zip_leftD)
    then show ?thesis using False by (simp add: fill_originals_other)
  qed
  show "\<exists>out. fst (plugin_call h (Some f) (P, lg) texts) = Inr out \<and>
      length out = length texts \<and>
      (\<forall>i<length texts. out ! i = (if i \<in> set missIdx then Some (texts ! i) else hits ! i))"
    using tm lo slot by (auto simp: plugin_call_def split: prod.splits)
qed

theorem batch_settlement_witness:
  "run_loop (\<lambda>(st :: unit) ts. (Inl (Error ''boom''), st)) (Num 250) (Num 2) (\<lambda>i. []) (Suc 0) 0 ()
     [\<lparr>task_text = ''a'', tid = 0\<rparr>, \<lparr>task_text = ''b'', tid = 1\<rparr>]
     = Some ((), [], [Called [''a'', ''b''], ConsoleError (Error ''boom''),
          Rejected 0 (Error ''boom''), Rejected 1 (Error ''boom''), Slept (Num 250)]) \<and>
   settlement 1 (settle_batch (Inl (Error ''boom''))
       [\<lparr>task_text = ''a'', tid = 0\<rparr>, \<lparr>task_text = ''b'', tid = 1\<rparr>])
     = Some (Rejected 1 (Error ''boom'')) \<and>
   settlement 1 (settle_batch (Inr [Some ''x'', Some ''y''])
       [\<lparr>task_text = ''a'', tid = 0\<rparr>, \<lparr>task_text = ''b'', tid = 1\<rparr>])
     = Some (Resolved 1 (Some ''y'')) \<and>
   fst (plugin_call id (Some (\<lambda>ts s t. Inl (Error ''Azure 500''))) (plugin0 (Num 5000), [])
       [''Hello'']) = Inr [Some ''Hello'']"
proof -
  let ?q = "[\<lparr>task_text = ''a'', tid = 0\<rparr>, \<lparr>task_text = ''b'', tid = 1\<rparr>]"
  let ?fail = "\<lambda>(st :: unit) (ts :: string list).
      (Inl (Error ''boom'') :: error + string option list, st)"
  let ?echo = "\<lambda>(st :: unit) (ts :: string list).
      (Inr [Some ''x'', Some ''y''] :: error + string option list, st)"
  let ?f = "\<lambda>(ts :: string list) (s :: string) (t :: string).
      (Inl (Error ''Azure 500'') :: error + string option list)"
  let ?P = "plugin0 (Num 5000)"
  have q: "?q \<noteq> []" by simp
  have tasks: "?q = take (splice_count (Num 2) (length ?q)) ?q" by simp
  have c1: "?fail () (map task_text ?q) = (Inl (Error ''boom''), ())" by simp
  have c2: "?echo () (map task_text ?q) = (Inr [Some ''x'', Some ''y''], ())" by simp
  have r1: "run_loop ?fail (Num 250) (Num 2) (\<lambda>i. []) 0 (Suc 0) ()
      (drop (splice_count (Num 2) (length ?q)) ?q @ []) = Some ((), [], [])" by simp
  have r2: "run_loop ?echo (Num 250) (Num 2) (\<lambda>i. []) 0 (Suc 0) ()
      (drop (splice_count (Num 2) (length ?q)) ?q @ []) = Some ((), [], [])" by simp
  have l: "lookup_loop (lru ?P) (diskCache ?P) 0 (keys_of id ?P [''Hello''])
      = ([None], [0], lru ?P)"
    by (simp add: eval_defs)
  have a: "lookup_loop (lru ?P) (diskCache ?P) 0 (keys_of id ?P [''Hello''])
      = ([None], [0], lru ?P) \<and> [0::nat] \<noteq> [] \<and> \<not> offlineOnly ?P \<and>
      ?f (map (\<lambda>i. [''Hello''] ! i) [0]) (src_of ?P) (tgt_of ?P) = Inl (Error ''Azure 500'')"
    using l by (simp add: plugin0_def)
  note T1 = batch_settlement [where call = ?fail and arr = "\<lambda>i. []" and st = "()"
      and P = ?P and h = id and texts = "[''Hello'']" and f = ?f and lg = "[]"
      and hits = "[None]" and missIdx = "[0]" and cm = "lru ?P" and e' = "Error ''Azure 500''",
      OF q tasks c1 r1]
  note T2 = batch_settlement [where call = ?echo and arr = "\<lambda>i. []" and st = "()",
      OF q tasks c2 r2]
  have p1: "run_loop ?fail (Num 250) (Num 2) (\<lambda>i. []) (Suc 0) 0 () ?q
      = Some ((), [], [Called [''a'', ''b''], ConsoleError (Error ''boom''),
          Rejected 0 (Error ''boom''), Rejected 1 (Error ''boom''), Slept (Num 250)])"
    using T1 [THEN conjunct1] by (simp add: settle_batch_def reject_all_def)
  have p2: "settlement 1 (settle_batch (Inl (Error ''boom'')) ?q) = Some (Rejected 1 (Error ''boom''))"
    using T1 [THEN conjunct2, THEN conjunct1, rule_format, OF refl, THEN conjunct2,
        rule_format, of "\<lparr>task_text = ''b'', tid = 1\<rparr>"]
    by simp
  have p3: "settlement 1 (settle_batch (Inr [Some ''x'', Some ''y'']) ?q)
      = Some (Resolved 1 (Some ''y''))"
    using T2 [THEN conjunct2, THEN conjunct2, THEN conjunct1, rule_format,
        of "[Some ''x'', Some ''y'']" 1]
    by simp
  obtain out where o: "fst (plugin_call id (Some ?f) (?P, []) [''Hello'']) = Inr out"
      "length out = length [''Hello'']"
      "\<forall>i<length [''Hello'']. out ! i = (if i \<in> set [0] then Some ([''Hello''] ! i) else [None] ! i)"
    using T1 [THEN conjunct2, THEN conjunct2, THEN conjunct2] a by blast
  have "out = [Some ''Hello'']"
    using o(2,3) by (cases out) auto
  then have p4: "fst (plugin_call id (Some ?f) (?P, []) [''Hello'']) = Inr [Some ''Hello'']"
    using o(1) by simp
  from p1 p2 p3 p4 show ?thesis by blast
qed

end
